theory Spec2Isabelle
  imports Main "HOL-Library.AList" "HOL-Library.Product_Lexorder" "HOL-Library.Monad_Syntax" "HOL-Library.Multiset"
begin

section \<open>Python values used by UniqueFileSelection.py\<close>

text \<open>
  An exception is a value: every function of the source that can raise returns
  \<open>error + 'a\<close>, with \<open>Inl\<close> for the exception. \<open>ParserError\<close> stands for what
  \<open>arrow.get\<close> raises on a string it cannot read as a timestamp (its own parser error
  or the \<open>ValueError\<close> of the datetime constructor), \<open>IOError\<close> for what opening or
  reading a zip archive raises, \<open>AttributeError\<close> for the attribute access on
  \<open>None\<close> inside \<open>parse_html\<close>, \<open>KeyError\<close> for opening an entry that the archive
  does not list, \<open>ParserRejectedMarkup\<close> for what BeautifulSoup raises on bytes that
  its parser rejects.
\<close>

datatype error =
  ParserError string | IOError string | AttributeError | KeyError string | ParserRejectedMarkup

text \<open>
  A Python \<open>dict\<close> is an association list in insertion order with distinct keys.
  \<open>d[k] = v\<close> replaces the value of an existing key where it stands and appends a new key
  at the end.
\<close>

type_synonym ('k, 'v) dict = "('k \<times> 'v) list"

definition dict_set :: "('k, 'v) dict \<Rightarrow> 'k \<Rightarrow> 'v \<Rightarrow> ('k, 'v) dict" where
  "dict_set d k v = AList.update k v d"

text \<open>
  \<open>a == b\<close> on two dicts: the same number of keys, and every key of \<open>a\<close> is a key of
  \<open>b\<close> with an equal value. The order of insertion plays no part.
\<close>

definition dict_eq :: "('k, 'v) dict \<Rightarrow> ('k, 'v) dict \<Rightarrow> bool" where
  "dict_eq a b = (length a = length b \<and> list_all (\<lambda>(k, v). map_of b k = Some v) a)"

text \<open>
  A parsed table is a list of rows, a row a list of cell strings; a snapshot
  (the \<open>html_dict\<close> that \<open>get_html_dict\<close> returns) maps company names to tables.
\<close>

type_synonym table_contents = "string list list"
type_synonym snapshot = "(string, table_contents) dict"

section \<open>The duplicate scan of \<open>main\<close>\<close>

text \<open>
  \<open>html_dict == previous_html_dict\<close>, where \<open>previous_html_dict\<close> starts as \<open>None\<close>:
  a dict never equals \<open>None\<close>.
\<close>

fun eq_previous :: "snapshot \<Rightarrow> snapshot option \<Rightarrow> bool" where
  "eq_previous html_dict None = False"
| "eq_previous html_dict (Some previous_html_dict) = dict_eq html_dict previous_html_dict"

text \<open>
  The loop \<open>for path, html_dict in zip(sorted_paths, html_dicts)\<close>, with its two
  variables \<open>previous_html_dict\<close> and \<open>duplicate_arch_paths\<close> passed along.
\<close>

fun scan_duplicates ::
  "snapshot option \<Rightarrow> string list \<Rightarrow> (string \<times> snapshot) list \<Rightarrow> string list" where
  "scan_duplicates previous_html_dict duplicate_arch_paths [] = duplicate_arch_paths"
| "scan_duplicates previous_html_dict duplicate_arch_paths ((path, html_dict) # rest) =
     scan_duplicates (Some html_dict)
       (if eq_previous html_dict previous_html_dict
        then duplicate_arch_paths @ [path] else duplicate_arch_paths) rest"

definition duplicate_arch_paths_of :: "string list \<Rightarrow> snapshot list \<Rightarrow> string list" where
  "duplicate_arch_paths_of sorted_paths html_dicts =
     scan_duplicates None [] (zip sorted_paths html_dicts)"


section \<open>Sorting the archive file names by date\<close>

text \<open>
  The date object that \<open>arrow.get\<close> returns, reduced to the fields the format
  \<open>D_M_YYYY_H_m\<close> sets: (year, month, day, hour, minute). Seconds are 0 and the time
  zone is UTC in every object, so two objects compare as these tuples do,
  lexicographically.

  \<open>arrow\<close> is a library outside the repository, and its releases do not read the same
  strings. The call \<open>arrow.get(s, 'D_M_YYYY_H_m')\<close> is therefore the parameter
  \<open>arrow_get\<close> of every function that reaches it: a function from the string to the
  date object or to the exception raised.
\<close>

type_synonym date_obj = "nat \<times> nat \<times> nat \<times> nat \<times> nat"

text \<open>The slice \<open>arch_name[8:-4]\<close>; it is empty when the name has 12 characters or fewer.\<close>

definition slice_8_m4 :: "string \<Rightarrow> string" where
  "slice_8_m4 arch_name = drop 8 (take (length arch_name - 4) arch_name)"

text \<open>\<open>'{}'.format(n)\<close> for a non-negative integer: decimal, no padding.\<close>

fun format_nat :: "nat \<Rightarrow> string" where
  "format_nat n =
     (if n < 10 then [''0123456789'' ! n]
      else format_nat (n div 10) @ [''0123456789'' ! (n mod 10)])"

declare format_nat.simps [simp del]

fun recovered_arch_name :: "date_obj \<Rightarrow> string" where
  "recovered_arch_name (y, m, d, h, mi) =
     ''archive_'' @ format_nat d @ ''_'' @ format_nat m @ ''_'' @ format_nat y @ ''_''
       @ format_nat h @ ''_'' @ format_nat mi @ ''.zip''"

text \<open>The first loop of \<open>_sort_filenames_by_date\<close>; an exception of \<open>arrow.get\<close> leaves it.\<close>

fun date_objects_of ::
  "(string \<Rightarrow> error + date_obj) \<Rightarrow> date_obj list \<Rightarrow> string list \<Rightarrow> error + date_obj list" where
  "date_objects_of arrow_get date_objects [] = Inr date_objects"
| "date_objects_of arrow_get date_objects (arch_name # rest) =
     (case arrow_get (slice_8_m4 arch_name) of
        Inl e \<Rightarrow> Inl e
      | Inr date_obj \<Rightarrow> date_objects_of arrow_get (date_objects @ [date_obj]) rest)"

definition sort_filenames_by_date ::
  "(string \<Rightarrow> error + date_obj) \<Rightarrow> string list \<Rightarrow> error + string list" where
  "sort_filenames_by_date arrow_get arch_filenames =
     (case date_objects_of arrow_get [] arch_filenames of
        Inl e \<Rightarrow> Inl e
      | Inr date_objects \<Rightarrow>
          Inr (foldl (\<lambda>recovered_arch_filenames date_obj.
                        recovered_arch_filenames @ [recovered_arch_name date_obj])
                 [] (sort date_objects)))"

text \<open>
  \<open>os.path.join(arch_dir, f_name)\<close>, as \<open>posixpath\<close> defines it for two components.
\<close>

definition os_path_join :: "string \<Rightarrow> string \<Rightarrow> string" where
  "os_path_join a b =
     (if b \<noteq> [] \<and> hd b = CHR ''/'' then b
      else if a = [] \<or> last a = CHR ''/'' then a @ b
      else a @ ''/'' @ b)"

text \<open>
  \<open>os.listdir\<close> is a parameter: the names of the directory's entries, in whatever order
  the system lists them.
\<close>

definition generate_sorted_paths_to_archives ::
  "(string \<Rightarrow> error + date_obj) \<Rightarrow> (string \<Rightarrow> string list) \<Rightarrow> string
     \<Rightarrow> error + string list" where
  "generate_sorted_paths_to_archives arrow_get os_listdir arch_dir =
     (case sort_filenames_by_date arrow_get (os_listdir arch_dir) of
        Inl e \<Rightarrow> Inl e
      | Inr sorted_by_date_arch_filenames \<Rightarrow>
          Inr (foldl (\<lambda>sorted_by_date_arch_paths f_name.
                        sorted_by_date_arch_paths @ [os_path_join arch_dir f_name])
                 [] sorted_by_date_arch_filenames))"


text \<open>
  The date object of a file name, and a name whose slice \<open>arrow.get\<close> reads.
\<close>

definition date_obj_of :: "(string \<Rightarrow> error + date_obj) \<Rightarrow> string \<Rightarrow> error + date_obj" where
  "date_obj_of arrow_get arch_name = arrow_get (slice_8_m4 arch_name)"

definition readable_name :: "(string \<Rightarrow> error + date_obj) \<Rightarrow> string \<Rightarrow> bool" where
  "readable_name arrow_get arch_name =
     (case date_obj_of arrow_get arch_name of Inl e \<Rightarrow> False | Inr t \<Rightarrow> True)"

subsection \<open>Plain timestamps\<close>

text \<open>
  A date that the datetime constructor accepts and whose year has four digits, and the
  string the format \<open>D_M_YYYY_H_m\<close> stands for at such a date, written as
  \<open>recovered_arch_name\<close> writes the fields: decimal, without padding.
\<close>

definition leap_year :: "nat \<Rightarrow> bool" where
  "leap_year y = (y mod 4 = 0 \<and> (y mod 100 \<noteq> 0 \<or> y mod 400 = 0))"

definition days_in_month :: "nat \<Rightarrow> nat \<Rightarrow> nat" where
  "days_in_month y m =
     (if m = 2 then (if leap_year y then 29 else 28)
      else if m \<in> {4, 6, 9, 11} then 30 else 31)"

fun valid_date :: "date_obj \<Rightarrow> bool" where
  "valid_date (y, m, d, h, mi) =
     (1000 \<le> y \<and> y \<le> 9999 \<and> 1 \<le> m \<and> m \<le> 12 \<and> 1 \<le> d \<and> d \<le> days_in_month y m
      \<and> h \<le> 23 \<and> mi \<le> 59)"

fun timestamp_string :: "date_obj \<Rightarrow> string" where
  "timestamp_string (y, m, d, h, mi) =
     format_nat d @ ''_'' @ format_nat m @ ''_'' @ format_nat y @ ''_''
       @ format_nat h @ ''_'' @ format_nat mi"

text \<open>
  What the properties below ask of \<open>arrow.get\<close>, where they ask anything: that it reads
  the plain timestamp of a valid date as that date.
\<close>

definition reads_plain_timestamps :: "(string \<Rightarrow> error + date_obj) \<Rightarrow> bool" where
  "reads_plain_timestamps arrow_get =
     (\<forall>t. valid_date t \<longrightarrow> arrow_get (timestamp_string t) = Inr t)"

text \<open>
  A function that reads the strings made of a timestamp and nothing else: the tokens
  \<open>D\<close>, \<open>M\<close>, \<open>H\<close> and \<open>m\<close> one or two digits, \<open>YYYY\<close> four, the separators
  underscores, the fields a date that the datetime constructor accepts (year from 1,
  month 1 to 12, a day of that month, hour up to 23, minute up to 59). It stands for
  \<open>arrow.get\<close> in the examples, which are on strings that it reads, as \<open>arrow.get\<close>
  does, to the same date, or on strings without a digit. It is not \<open>arrow.get\<close> on the
  other strings, where it raises and a release of the library may return a date (hour
  24, text around the timestamp).
\<close>

definition is_digit :: "char \<Rightarrow> bool" where
  "is_digit c = (c \<in> set ''0123456789'')"

definition int_of_digits :: "string \<Rightarrow> nat" where
  "int_of_digits s = foldl (\<lambda>n c. 10 * n + (of_char c - 48)) 0 s"

definition digits_field :: "nat \<Rightarrow> nat \<Rightarrow> string \<Rightarrow> nat option" where
  "digits_field lo hi s =
     (if lo \<le> length s \<and> length s \<le> hi \<and> list_all is_digit s
      then Some (int_of_digits s) else None)"

fun split_on :: "char \<Rightarrow> string \<Rightarrow> string list" where
  "split_on sep [] = [[]]"
| "split_on sep (c # cs) =
     (if c = sep then [] # split_on sep cs
      else (case split_on sep cs of [] \<Rightarrow> [[c]] | f # fs \<Rightarrow> (c # f) # fs))"

definition plain_timestamp_get :: "string \<Rightarrow> error + date_obj" where
  "plain_timestamp_get s =
     (case split_on CHR ''_'' s of
        [sD, sM, sYYYY, sH, sm] \<Rightarrow>
          (case do {
                  d \<leftarrow> digits_field 1 2 sD;
                  m \<leftarrow> digits_field 1 2 sM;
                  y \<leftarrow> digits_field 4 4 sYYYY;
                  h \<leftarrow> digits_field 1 2 sH;
                  mi \<leftarrow> digits_field 1 2 sm;
                  if 1 \<le> y \<and> 1 \<le> m \<and> m \<le> 12 \<and> 1 \<le> d \<and> d \<le> days_in_month y m
                     \<and> h \<le> 23 \<and> mi \<le> 59
                  then Some (y, m, d, h, mi) else None
                } of
             None \<Rightarrow> Inl (ParserError s)
           | Some date_obj \<Rightarrow> Inr date_obj)
      | _ \<Rightarrow> Inl (ParserError s))"

section \<open>Parsing the HTML tables of an archive\<close>

text \<open>
  The tree that BeautifulSoup builds: a tag with its name and children, a text node, or a
  node (comment, doctype, declaration) whose string is not part of \<open>.text\<close>.
\<close>

datatype node = Tag string "node list" | NavigableString string | Comment string

text \<open>All nodes below a node, in document order.\<close>

fun descendants :: "node \<Rightarrow> node list"
  and descendants_list :: "node list \<Rightarrow> node list" where
  "descendants (Tag name children) = descendants_list children"
| "descendants (NavigableString s) = []"
| "descendants (Comment s) = []"
| "descendants_list [] = []"
| "descendants_list (c # cs) = c # descendants c @ descendants_list cs"

fun is_tag :: "string \<Rightarrow> node \<Rightarrow> bool" where
  "is_tag name (Tag name' children) = (name' = name)"
| "is_tag name (NavigableString s) = False"
| "is_tag name (Comment s) = False"

text \<open>\<open>tag.find_all(name)\<close> and \<open>tag.find(name)\<close>, the latter \<open>None\<close> when nothing matches.\<close>

definition find_all :: "string \<Rightarrow> node \<Rightarrow> node list" where
  "find_all name t = filter (is_tag name) (descendants t)"

definition find_first :: "string \<Rightarrow> node \<Rightarrow> node option" where
  "find_first name t = (case find_all name t of [] \<Rightarrow> None | x # xs \<Rightarrow> Some x)"

text \<open>\<open>tag.text\<close>: the text nodes below the tag, concatenated.\<close>

fun get_text :: "node \<Rightarrow> string" where
  "get_text (Tag name children) = concat (map get_text children)"
| "get_text (NavigableString s) = s"
| "get_text (Comment s) = []"

text \<open>
  \<open>str.strip()\<close>: whitespace is removed at both ends. The characters are those below
  256 for which \<open>str.isspace\<close> holds.
\<close>

definition isspace :: "char \<Rightarrow> bool" where
  "isspace c = (of_char c \<in> {9, 10, 11, 12, 13, 28, 29, 30, 31, 32, 133, 160 :: nat})"

definition strip :: "string \<Rightarrow> string" where
  "strip s = rev (dropWhile isspace (rev (dropWhile isspace s)))"

text \<open>\<open>_parse_table\<close>, with its two nested loops and the lists they append to.\<close>

definition parse_table :: "node \<Rightarrow> table_contents" where
  "parse_table table =
     foldl (\<lambda>table_contents tr.
              table_contents @
                [foldl (\<lambda>td_contents td. td_contents @ [strip (get_text td)])
                   [] (find_all ''td'' tr)])
       [] (find_all ''tr'' table)"

text \<open>
  \<open>re.match(r"([A-Z]{3})(.*)", key)\<close>: the two groups, or \<open>None\<close>. The second group
  runs up to the first newline.
\<close>

definition is_upper :: "char \<Rightarrow> bool" where
  "is_upper c = (c \<in> set ''ABCDEFGHIJKLMNOPQRSTUVWXYZ'')"

definition re_match :: "string \<Rightarrow> (string \<times> string) option" where
  "re_match key =
     (if 3 \<le> length key \<and> list_all is_upper (take 3 key)
      then Some (take 3 key, takeWhile (\<lambda>c. c \<noteq> CHR 0x0A) (drop 3 key))
      else None)"

text \<open>
  The body of the \<open>try\<close> in \<open>parse_html\<close>, statement by statement. \<open>.group(1)\<close>
  on \<open>None\<close> and \<open>.find_all\<close> on \<open>None\<close> raise AttributeError. BeautifulSoup's
  parser \<open>BeautifulSoup(value, "html.parser")\<close> is the parameter \<open>bs\<close>, from the bytes
  of an entry to the root of its tree or to the exception it raises on them.
\<close>

definition parse_entry ::
  "('b \<Rightarrow> error + node) \<Rightarrow> string \<Rightarrow> 'b \<Rightarrow> error + (string \<times> table_contents)" where
  "parse_entry bs key value =
     (case re_match key of
        None \<Rightarrow> Inl AttributeError
      | Some (company_name, rest) \<Rightarrow>
          (case bs value of
             Inl e \<Rightarrow> Inl e
           | Inr soup \<Rightarrow>
               (case find_first ''table'' soup of
                  None \<Rightarrow> Inl AttributeError
                | Some table \<Rightarrow> Inr (company_name, parse_table table))))"

text \<open>
  \<open>parse_html\<close>: the loop over \<open>html_dict.items()\<close>. \<open>except AttributeError\<close> goes
  on with the next entry and leaves \<open>parse_html_contents\<close> as it is; any other
  exception leaves the loop and the function. What the function prints is not part of
  the model.
\<close>

fun parse_html_loop ::
  "('b \<Rightarrow> error + node) \<Rightarrow> snapshot \<Rightarrow> (string, 'b) dict \<Rightarrow> error + snapshot" where
  "parse_html_loop bs parse_html_contents [] = Inr parse_html_contents"
| "parse_html_loop bs parse_html_contents ((key, value) # rest) =
     (case parse_entry bs key value of
        Inl e \<Rightarrow>
          (if e = AttributeError then parse_html_loop bs parse_html_contents rest
           else Inl e)
      | Inr (company_name, table_contents) \<Rightarrow>
          parse_html_loop bs (dict_set parse_html_contents company_name table_contents) rest)"

definition parse_html :: "('b \<Rightarrow> error + node) \<Rightarrow> (string, 'b) dict \<Rightarrow> error + snapshot" where
  "parse_html bs html_dict = parse_html_loop bs [] html_dict"

text \<open>
  The three ways an entry can go: it gives a company name and a table, it is skipped
  (the AttributeError that the loop catches), or it raises what the loop does not catch.
\<close>

definition entry_parses :: "('b \<Rightarrow> error + node) \<Rightarrow> string \<times> 'b \<Rightarrow> bool" where
  "entry_parses bs entry =
     (case parse_entry bs (fst entry) (snd entry) of Inl e \<Rightarrow> False | Inr r \<Rightarrow> True)"

definition entry_skipped :: "('b \<Rightarrow> error + node) \<Rightarrow> string \<times> 'b \<Rightarrow> bool" where
  "entry_skipped bs entry = (parse_entry bs (fst entry) (snd entry) = Inl AttributeError)"

definition entry_raises :: "('b \<Rightarrow> error + node) \<Rightarrow> string \<times> 'b \<Rightarrow> bool" where
  "entry_raises bs entry =
     (case parse_entry bs (fst entry) (snd entry) of
        Inl e \<Rightarrow> e \<noteq> AttributeError
      | Inr r \<Rightarrow> False)"

section \<open>Reading an archive and the whole run\<close>

text \<open>
  The file system is the parameter \<open>zip_file\<close>: the entries (name and bytes, in the
  container's listing order) of the archive at a path, or \<open>None\<close> when there is no file
  at the path or the file is not a readable archive, in which case \<open>ZipFile\<close> raises.
  \<open>zf.open(f_name)\<close> opens the last entry of that name.
\<close>

definition zf_read :: "(string \<times> 'b) list \<Rightarrow> string \<Rightarrow> error + 'b" where
  "zf_read entries f_name =
     (case map_of (rev entries) f_name of None \<Rightarrow> Inl (KeyError f_name) | Some b \<Rightarrow> Inr b)"

fun read_entries ::
  "(string \<times> 'b) list \<Rightarrow> (string, 'b) dict \<Rightarrow> string list \<Rightarrow> error + (string, 'b) dict" where
  "read_entries entries html_dict [] = Inr html_dict"
| "read_entries entries html_dict (f_name # f_names) =
     (case zf_read entries f_name of
        Inl e \<Rightarrow> Inl e
      | Inr b \<Rightarrow> read_entries entries (dict_set html_dict f_name b) f_names)"

definition read_html_from_archive ::
  "(string \<Rightarrow> (string \<times> 'b) list option) \<Rightarrow> string \<Rightarrow> error + (string, 'b) dict" where
  "read_html_from_archive zip_file path =
     (case zip_file path of
        None \<Rightarrow> Inl (IOError path)
      | Some entries \<Rightarrow> read_entries entries [] (map fst entries))"

definition get_html_dict ::
  "(string \<Rightarrow> (string \<times> 'b) list option) \<Rightarrow> ('b \<Rightarrow> error + node) \<Rightarrow> string
     \<Rightarrow> error + snapshot" where
  "get_html_dict zip_file bs path =
     (case read_html_from_archive zip_file path of
        Inl e \<Rightarrow> Inl e
      | Inr raw_html_dict \<Rightarrow> parse_html bs raw_html_dict)"

text \<open>
  \<open>Pool.map\<close>: the results in the order of the arguments, or the exception of a call
  that raised. The model takes the calls one after the other and keeps the first
  exception; which one the pool reports when several calls raise is not fixed by the
  library, and no property below depends on it.
\<close>

fun pool_map :: "('a \<Rightarrow> error + 'b) \<Rightarrow> 'a list \<Rightarrow> error + 'b list" where
  "pool_map f [] = Inr []"
| "pool_map f (x # xs) =
     (case f x of
        Inl e \<Rightarrow> Inl e
      | Inr y \<Rightarrow> (case pool_map f xs of Inl e \<Rightarrow> Inl e | Inr ys \<Rightarrow> Inr (y # ys)))"

text \<open>
  \<open>main\<close>, with the directory as an argument; its result is the list it writes to
  the result file, or the exception that ends the run before anything is written.
\<close>

definition main ::
  "(string \<Rightarrow> error + date_obj) \<Rightarrow> (string \<Rightarrow> string list)
     \<Rightarrow> (string \<Rightarrow> (string \<times> 'b) list option) \<Rightarrow> ('b \<Rightarrow> error + node)
     \<Rightarrow> string \<Rightarrow> error + string list" where
  "main arrow_get os_listdir zip_file bs arch_dir =
     (case generate_sorted_paths_to_archives arrow_get os_listdir arch_dir of
        Inl e \<Rightarrow> Inl e
      | Inr sorted_paths \<Rightarrow>
          (case pool_map (get_html_dict zip_file bs) sorted_paths of
             Inl e \<Rightarrow> Inl e
           | Inr html_dicts \<Rightarrow> Inr (duplicate_arch_paths_of sorted_paths html_dicts)))"


section \<open>Documents for evaluation\<close>

text \<open>
  The tree of a page with a table of one header row and one data row, and the tree of a
  page with no table.
\<close>

definition doc_with_table :: "string \<Rightarrow> node" where
  "doc_with_table s =
     Tag ''[document]''
       [Tag ''table''
          [Tag ''tr'' [Tag ''th'' [NavigableString ''Open'']],
           Tag ''tr'' [Tag ''td'' [NavigableString s]]]]"

definition doc_without_table :: node where
  "doc_without_table = Tag ''[document]'' [Tag ''p'' [NavigableString ''no data'']]"

text \<open>
  What \<open>BeautifulSoup(value, "html.parser")\<close> does on three byte strings: the marked
  section \<open><![foo bar]>\<close> makes the parser raise, and the exception is not an
  AttributeError; the other two give the trees above. The examples below apply the
  function to these three strings only; on any other string it returns one text node,
  which is the tree of a string without markup.
\<close>

definition bs_examples :: "string \<Rightarrow> error + node" where
  "bs_examples value =
     (if value = ''<![foo bar]>'' then Inl ParserRejectedMarkup
      else if value = ''<table><tr><th>Open</th></tr><tr><td>10</td></tr></table>''
      then Inr (doc_with_table ''10'')
      else if value = ''<p>no data</p>'' then Inr doc_without_table
      else Inr (Tag ''[document]'' [NavigableString value]))"

section \<open>Properties of the duplicate scan\<close>

text \<open>On dicts, whose keys are distinct, \<open>dict_eq\<close> is equality of the mappings.\<close>

lemma dict_eq_iff_map_of:
  assumes a: "distinct (map fst a)" and b: "distinct (map fst b)"
  shows "dict_eq a b \<longleftrightarrow> map_of a = map_of b"
proof
  assume e: "dict_eq a b"
  then have len: "length a = length b"
    and all: "\<forall>(k, v) \<in> set a. map_of b k = Some v"
    by (auto simp: dict_eq_def list_all_iff)
  have sub: "fst ` set a \<subseteq> fst ` set b"
  proof
    fix k assume "k \<in> fst ` set a"
    then obtain v where "(k, v) \<in> set a" by auto
    with all have "map_of b k = Some v" by auto
    then show "k \<in> fst ` set b" by (metis map_of_SomeD fst_conv image_eqI)
  qed
  have "card (fst ` set a) = length a" "card (fst ` set b) = length b"
    using a b distinct_card [of "map fst a"] distinct_card [of "map fst b"] by simp_all
  with len sub have keys: "fst ` set a = fst ` set b"
    by (metis card_subset_eq List.finite_set finite_imageI)
  show "map_of a = map_of b"
  proof
    fix k
    show "map_of a k = map_of b k"
    proof (cases "map_of a k")
      case None
      then have "k \<notin> fst ` set a" by (simp add: map_of_eq_None_iff)
      with keys have "k \<notin> fst ` set b" by simp
      then have "map_of b k = None" by (simp add: map_of_eq_None_iff)
      with None show ?thesis by simp
    next
      case (Some v)
      then have "(k, v) \<in> set a" by (rule map_of_SomeD)
      with all have "map_of b k = Some v" by auto
      with Some show ?thesis by simp
    qed
  qed
next
  assume m: "map_of a = map_of b"
  then have "dom (map_of a) = dom (map_of b)" by simp
  then have "fst ` set a = fst ` set b" by (simp add: dom_map_of_conv_image_fst)
  then have "card (set (map fst a)) = card (set (map fst b))" by simp
  then have len: "length a = length b"
    using a b by (simp add: distinct_card del: set_map)
  have "\<forall>(k, v) \<in> set a. map_of b k = Some v"
    using a m by (auto simp: map_of_eq_Some_iff [symmetric])
  with len show "dict_eq a b" by (simp add: dict_eq_def list_all_iff)
qed


lemma scan_duplicates_append:
  "scan_duplicates prev acc xs = acc @ scan_duplicates prev [] xs"
proof (induction xs arbitrary: prev acc)
  case Nil show ?case by simp
next
  case (Cons x xs)
  obtain p d where x: "x = (p, d)" by (cases x)
  show ?case
    using Cons.IH [of "Some d" "acc @ [p]"] Cons.IH [of "Some d" acc]
          Cons.IH [of "Some d" "[p]"]
    by (simp add: x)
qed

lemma upt_0_Suc_shift: "[0..<Suc n] = 0 # map Suc [0..<n]"
  by (metis map_Suc_upt upt_conv_Cons zero_less_Suc)

lemma scan_duplicates_index:
  "scan_duplicates (Some d0) [] xs =
     map (\<lambda>i. fst (xs ! i))
       (filter (\<lambda>i. dict_eq (snd (xs ! i)) ((d0 # map snd xs) ! i)) [0..<length xs])"
proof (induction xs arbitrary: d0)
  case Nil show ?case by simp
next
  case (Cons x xs)
  obtain p d where x: "x = (p, d)" by (cases x)
  have upt: "[0..<length (x # xs)] = 0 # map Suc [0..<length xs]"
    using upt_0_Suc_shift [of "length xs"] by simp
  show ?case
    unfolding upt
    using Cons.IH [of d] scan_duplicates_append [of "Some d" "[p]" xs]
    by (simp add: x filter_map comp_def)
qed

lemma scan_duplicates_None_index:
  "scan_duplicates None [] xs =
     map (\<lambda>i. fst (xs ! i))
       (filter (\<lambda>i. dict_eq (snd (xs ! i)) (snd (xs ! (i - 1)))) [1..<length xs])"
proof (cases xs)
  case Nil then show ?thesis by simp
next
  case (Cons x rest)
  obtain p d where x: "x = (p, d)" by (cases x)
  have upt: "[1..<length xs] = map Suc [0..<length rest]"
    using map_Suc_upt [of 0 "length rest"] by (simp add: Cons)
  have flt: "filter (\<lambda>i. dict_eq (snd (rest ! i)) ((d # map snd rest) ! i)) [0..<length rest]
     = filter (\<lambda>i. dict_eq (snd (rest ! i)) (snd (((p, d) # rest) ! i))) [0..<length rest]"
    by (rule filter_cong) (auto simp: nth_Cons split: nat.splits)
  show ?thesis
    unfolding upt
    by (simp add: Cons x scan_duplicates_index flt filter_map comp_def)
qed

lemma duplicate_arch_paths_of_index:
  "duplicate_arch_paths_of ps ds =
     map (\<lambda>i. ps ! i)
       (filter (\<lambda>i. dict_eq (ds ! i) (ds ! (i - 1))) [1..<min (length ps) (length ds)])"
proof -
  let ?xs = "zip ps ds"
  let ?n = "min (length ps) (length ds)"
  have flt: "filter (\<lambda>i. dict_eq (snd (?xs ! i)) (snd (?xs ! (i - 1)))) [1..<?n]
      = filter (\<lambda>i. dict_eq (ds ! i) (ds ! (i - 1))) [1..<?n]"
    by (rule filter_cong) auto
  have mp: "map (\<lambda>i. fst (?xs ! i)) (filter (\<lambda>i. dict_eq (ds ! i) (ds ! (i - 1))) [1..<?n])
      = map (\<lambda>i. ps ! i) (filter (\<lambda>i. dict_eq (ds ! i) (ds ! (i - 1))) [1..<?n])"
    by (rule map_cong) auto
  show ?thesis
    unfolding duplicate_arch_paths_of_def scan_duplicates_None_index
    using flt mp by simp
qed


text \<open>
  Claim C1. For paths \<open>ps\<close> and snapshots \<open>ds\<close> in chronological order, the
  report holds exactly the paths at the positions \<open>i \<ge> 1\<close> (counted from 0) whose
  snapshot equals the one at position \<open>i - 1\<close>, in that order. So for three archives
  with equal snapshots the report is the second and the third path; when every snapshot
  equals its predecessor the report is every path but the first; the first path of a
  list of distinct paths is never in the report; and the report is empty when no
  snapshot equals its predecessor.
\<close>

theorem duplicate_report_consecutive:
  "duplicate_arch_paths_of ps ds =
     map (\<lambda>i. ps ! i)
       (filter (\<lambda>i. dict_eq (ds ! i) (ds ! (i - 1))) [1..<min (length ps) (length ds)])
   \<and> (dict_eq dB dA \<and> dict_eq dC dB \<longrightarrow>
        duplicate_arch_paths_of [pA, pB, pC] [dA, dB, dC] = [pB, pC])
   \<and> (length ps = length ds \<and>
        (\<forall>i. 1 \<le> i \<and> i < length ds \<longrightarrow> dict_eq (ds ! i) (ds ! (i - 1))) \<longrightarrow>
        duplicate_arch_paths_of ps ds = tl ps)
   \<and> (ps \<noteq> [] \<and> distinct ps \<longrightarrow>
        hd ps \<notin> set (duplicate_arch_paths_of ps ds))
   \<and> ((\<forall>i. 1 \<le> i \<and> i < length ds \<longrightarrow> \<not> dict_eq (ds ! i) (ds ! (i - 1))) \<longrightarrow>
        duplicate_arch_paths_of ps ds = [])"
proof (intro conjI impI)
  show "duplicate_arch_paths_of ps ds =
     map (\<lambda>i. ps ! i)
       (filter (\<lambda>i. dict_eq (ds ! i) (ds ! (i - 1))) [1..<min (length ps) (length ds)])"
    by (rule duplicate_arch_paths_of_index)
next
  assume "dict_eq dB dA \<and> dict_eq dC dB"
  then show "duplicate_arch_paths_of [pA, pB, pC] [dA, dB, dC] = [pB, pC]"
    by (simp add: duplicate_arch_paths_of_def)
next
  assume h: "length ps = length ds \<and>
    (\<forall>i. 1 \<le> i \<and> i < length ds \<longrightarrow> dict_eq (ds ! i) (ds ! (i - 1)))"
  then have "filter (\<lambda>i. dict_eq (ds ! i) (ds ! (i - 1))) [1..<length ds] = [1..<length ds]"
    by (auto simp: filter_id_conv)
  moreover have "map (\<lambda>i. ps ! i) [1..<length ps] = tl ps"
    using map_nth [of ps] drop_map [of 1 "\<lambda>i. ps ! i" "[0..<length ps]"]
    by (simp add: drop_Suc)
  ultimately show "duplicate_arch_paths_of ps ds = tl ps"
    using h by (simp add: duplicate_arch_paths_of_index)
next
  assume h: "ps \<noteq> [] \<and> distinct ps"
  show "hd ps \<notin> set (duplicate_arch_paths_of ps ds)"
  proof
    assume "hd ps \<in> set (duplicate_arch_paths_of ps ds)"
    then obtain i where i: "1 \<le> i" "i < length ps" "ps ! i = hd ps"
      using h by (auto simp: duplicate_arch_paths_of_index)
    then have "ps ! i = ps ! 0" using h by (simp add: hd_conv_nth)
    then show False using h i nth_eq_iff_index_eq [of ps i 0] by auto
  qed
next
  assume "\<forall>i. 1 \<le> i \<and> i < length ds \<longrightarrow> \<not> dict_eq (ds ! i) (ds ! (i - 1))"
  then have "filter (\<lambda>i. dict_eq (ds ! i) (ds ! (i - 1))) [1..<min (length ps) (length ds)] = []"
    by (auto simp: filter_empty_conv)
  then show "duplicate_arch_paths_of ps ds = []"
    by (simp add: duplicate_arch_paths_of_index)
qed


theorem duplicate_report_consecutive_witness:
  "dict_eq [(''ABC'', [[''10'', ''20''], [''30'', ''40'']])] [(''ABC'', [[''10'', ''20''], [''30'', ''40'']])]
   \<and> \<not> dict_eq [(''ABC'', [[''10'', ''20''], [''31'', ''40'']])] [(''ABC'', [[''10'', ''20''], [''30'', ''40'']])]
   \<and> duplicate_arch_paths_of [''a'', ''b'', ''c'']
        [[(''ABC'', [[''10'', ''20''], [''30'', ''40'']])],
         [(''ABC'', [[''10'', ''20''], [''30'', ''40'']])],
         [(''ABC'', [[''10'', ''20''], [''30'', ''40'']])]] = [''b'', ''c'']
   \<and> ''a'' \<notin> set (duplicate_arch_paths_of [''a'', ''b'', ''c'']
        [[(''ABC'', [[''10'', ''20''], [''30'', ''40'']])],
         [(''ABC'', [[''10'', ''20''], [''30'', ''40'']])],
         [(''ABC'', [[''10'', ''20''], [''30'', ''40'']])]])
   \<and> duplicate_arch_paths_of [''a'', ''b'']
        [[(''ABC'', [[''10'', ''20''], [''30'', ''40'']])],
         [(''ABC'', [[''10'', ''20''], [''31'', ''40'']])]] = []"
proof -
  let ?t = "[(''ABC'', [[''10'', ''20''], [''30'', ''40'']])] :: snapshot"
  let ?u = "[(''ABC'', [[''10'', ''20''], [''31'', ''40'']])] :: snapshot"
  have e: "dict_eq ?t ?t" and n: "\<not> dict_eq ?u ?t"
    by (simp_all add: dict_eq_def)
  have run: "\<forall>i. 1 \<le> i \<and> i < length [?t, ?t, ?t] \<longrightarrow>
      dict_eq ([?t, ?t, ?t] ! i) ([?t, ?t, ?t] ! (i - 1))"
    using e by (auto simp: nth_Cons split: nat.splits)
  have none: "\<forall>i. 1 \<le> i \<and> i < length [?t, ?u] \<longrightarrow>
      \<not> dict_eq ([?t, ?u] ! i) ([?t, ?u] ! (i - 1))"
    using n by (auto simp: nth_Cons split: nat.splits)
  note a = duplicate_report_consecutive
    [of "[''a'', ''b'', ''c'']" "[?t, ?t, ?t]" ?t ?t ?t "''a''" "''b''" "''c''"]
  note b = duplicate_report_consecutive
    [of "[''a'', ''b'']" "[?t, ?u]" ?t ?t ?t "''a''" "''b''" "''c''"]
  have 1: "duplicate_arch_paths_of [''a'', ''b'', ''c''] [?t, ?t, ?t] = [''b'', ''c'']"
    using a e by blast
  have 2: "''a'' \<notin> set (duplicate_arch_paths_of [''a'', ''b'', ''c''] [?t, ?t, ?t])"
    using a by simp
  have 3: "duplicate_arch_paths_of [''a'', ''b''] [?t, ?u] = []"
    using b none by blast
  show ?thesis using e n 1 2 3 by blast
qed

section \<open>Properties of the sorter\<close>

text \<open>The equations that evaluate the sorter on a concrete list of names.\<close>

lemmas sorter_eval = sort_filenames_by_date_def slice_8_m4_def plain_timestamp_get_def
  digits_field_def is_digit_def int_of_digits_def leap_year_def days_in_month_def
  format_nat.simps date_obj_of_def readable_name_def

lemma foldl_append_single: "foldl (\<lambda>acc x. acc @ [f x]) a xs = a @ map f xs"
  by (induction xs arbitrary: a) simp_all

lemma readable_name_Inr:
  "readable_name arrow_get n \<Longrightarrow>
   \<exists>t. arrow_get (slice_8_m4 n) = Inr t \<and> projr (date_obj_of arrow_get n) = t"
  by (cases "arrow_get (slice_8_m4 n)") (auto simp: readable_name_def date_obj_of_def)

lemma date_objects_of_readable:
  "list_all (readable_name arrow_get) names \<Longrightarrow>
   date_objects_of arrow_get acc names =
     Inr (acc @ map (\<lambda>n. projr (date_obj_of arrow_get n)) names)"
proof (induction names arbitrary: acc)
  case Nil show ?case by simp
next
  case (Cons n names)
  from Cons.prems obtain t
    where "arrow_get (slice_8_m4 n) = Inr t" "projr (date_obj_of arrow_get n) = t"
    using readable_name_Inr [of arrow_get n] by auto
  with Cons show ?case by simp
qed

lemma sort_filenames_by_date_readable:
  "list_all (readable_name arrow_get) names \<Longrightarrow>
   sort_filenames_by_date arrow_get names =
     Inr (map recovered_arch_name (sort (map (\<lambda>n. projr (date_obj_of arrow_get n)) names)))"
  by (simp add: sort_filenames_by_date_def date_objects_of_readable foldl_append_single)

lemma date_objects_of_error:
  "\<not> list_all (readable_name arrow_get) names \<Longrightarrow>
   \<exists>m \<in> set names. \<exists>e. arrow_get (slice_8_m4 m) = Inl e \<and>
      date_objects_of arrow_get acc names = Inl e"
proof (induction names arbitrary: acc)
  case Nil then show ?case by simp
next
  case (Cons n names)
  show ?case
  proof (cases "arrow_get (slice_8_m4 n)")
    case (Inl e)
    then show ?thesis by auto
  next
    case (Inr t)
    then have "readable_name arrow_get n" by (simp add: readable_name_def date_obj_of_def)
    with Cons.prems have "\<not> list_all (readable_name arrow_get) names" by simp
    from Cons.IH [OF this, of "acc @ [t]"] Inr show ?thesis by auto
  qed
qed

lemma sort_filenames_by_date_error:
  "\<not> list_all (readable_name arrow_get) names \<Longrightarrow>
   \<exists>m \<in> set names. \<exists>e. arrow_get (slice_8_m4 m) = Inl e \<and>
      sort_filenames_by_date arrow_get names = Inl e"
  using date_objects_of_error [of arrow_get names "[]"]
  by (auto simp: sort_filenames_by_date_def)

subsection \<open>Writing a date and reading it back\<close>

lemma digit_cases: "k < 10 \<Longrightarrow> k \<in> {0, 1, 2, 3, 4, 5, 6, 7, 8, 9 :: nat}"
  by auto

lemma digit_char:
  assumes "k < 10"
  shows "is_digit (''0123456789'' ! k)"
    and "''0123456789'' ! k \<noteq> CHR ''_''"
    and "of_char (''0123456789'' ! k) - 48 = k"
  using digit_cases [OF assms] by (auto simp: is_digit_def)

lemma format_nat_digits: "list_all is_digit (format_nat n)"
proof (induction n rule: format_nat.induct)
  case (1 n)
  show ?case
  proof (cases "n < 10")
    case True
    then show ?thesis by (simp add: format_nat.simps [of n] digit_char)
  next
    case False
    then show ?thesis using 1 by (simp add: format_nat.simps [of n] digit_char)
  qed
qed

lemma format_nat_no_underscore: "CHR ''_'' \<notin> set (format_nat n)"
proof (induction n rule: format_nat.induct)
  case (1 n)
  show ?case
  proof (cases "n < 10")
    case True
    then show ?thesis using digit_char(2) [of n] by (simp add: format_nat.simps [of n])
  next
    case False
    then show ?thesis
      using 1 digit_char(2) [of "n mod 10"] by (simp add: format_nat.simps [of n])
  qed
qed

lemma int_of_digits_snoc:
  "int_of_digits (s @ [c]) = 10 * int_of_digits s + (of_char c - 48)"
  by (simp add: int_of_digits_def)

lemma int_of_digits_format_nat: "int_of_digits (format_nat n) = n"
proof (induction n rule: format_nat.induct)
  case (1 n)
  show ?case
  proof (cases "n < 10")
    case True
    then show ?thesis
      using digit_char(3) [of n] by (simp add: format_nat.simps [of n] int_of_digits_def)
  next
    case False
    then show ?thesis
      using 1 digit_char(3) [of "n mod 10"]
      by (simp add: format_nat.simps [of n] int_of_digits_snoc)
  qed
qed

lemma length_format_nat_1: "n < 10 \<Longrightarrow> length (format_nat n) = 1"
  by (simp add: format_nat.simps [of n])

lemma length_format_nat_2: "10 \<le> n \<Longrightarrow> n < 100 \<Longrightarrow> length (format_nat n) = 2"
  using length_format_nat_1 [of "n div 10"] by (simp add: format_nat.simps [of n])

lemma length_format_nat_3: "100 \<le> n \<Longrightarrow> n < 1000 \<Longrightarrow> length (format_nat n) = 3"
  using length_format_nat_2 [of "n div 10"] by (simp add: format_nat.simps [of n])

lemma length_format_nat_4: "1000 \<le> n \<Longrightarrow> n < 10000 \<Longrightarrow> length (format_nat n) = 4"
  using length_format_nat_3 [of "n div 10"] by (simp add: format_nat.simps [of n])

lemma length_format_nat_le_2: "n < 100 \<Longrightarrow> 1 \<le> length (format_nat n) \<and> length (format_nat n) \<le> 2"
  using length_format_nat_1 [of n] length_format_nat_2 [of n] by (cases "n < 10") simp_all

lemma digits_field_format_nat:
  "lo \<le> length (format_nat n) \<Longrightarrow> length (format_nat n) \<le> hi \<Longrightarrow>
   digits_field lo hi (format_nat n) = Some n"
  by (simp add: digits_field_def format_nat_digits int_of_digits_format_nat)

lemma split_on_no_sep: "sep \<notin> set a \<Longrightarrow> split_on sep a = [a]"
  by (induction a) auto

lemma split_on_field: "sep \<notin> set a \<Longrightarrow> split_on sep (a @ sep # rest) = a # split_on sep rest"
  by (induction a) auto

lemma split_on_timestamp_string:
  "split_on CHR ''_'' (timestamp_string (y, m, d, h, mi)) =
     [format_nat d, format_nat m, format_nat y, format_nat h, format_nat mi]"
  using split_on_field [of "CHR ''_''" "format_nat d"] split_on_field [of "CHR ''_''" "format_nat m"]
    split_on_field [of "CHR ''_''" "format_nat y"] split_on_field [of "CHR ''_''" "format_nat h"]
    split_on_no_sep [of "CHR ''_''" "format_nat mi"]
  by (simp add: format_nat_no_underscore)

lemma days_in_month_le: "days_in_month y m \<le> 31"
  by (simp add: days_in_month_def)

lemma plain_timestamp_get_reads: "reads_plain_timestamps plain_timestamp_get"
  unfolding reads_plain_timestamps_def
proof (intro allI impI)
  fix t :: date_obj assume v: "valid_date t"
  obtain y m d h mi where t: "t = (y, m, d, h, mi)" by (cases t)
  from v have d: "d < 100" using days_in_month_le [of y m] by (simp add: t)
  from v have fd: "digits_field (Suc 0) 2 (format_nat d) = Some d"
    using length_format_nat_le_2 [OF d] by (intro digits_field_format_nat) simp_all
  from v have fm: "digits_field (Suc 0) 2 (format_nat m) = Some m"
    using length_format_nat_le_2 [of m] by (intro digits_field_format_nat) (simp_all add: t)
  from v have fy: "digits_field 4 4 (format_nat y) = Some y"
    using length_format_nat_4 [of y] by (intro digits_field_format_nat) (simp_all add: t)
  from v have fh: "digits_field (Suc 0) 2 (format_nat h) = Some h"
    using length_format_nat_le_2 [of h] by (intro digits_field_format_nat) (simp_all add: t)
  from v have fmi: "digits_field (Suc 0) 2 (format_nat mi) = Some mi"
    using length_format_nat_le_2 [of mi] by (intro digits_field_format_nat) (simp_all add: t)
  show "plain_timestamp_get (timestamp_string t) = Inr t"
    using v unfolding t plain_timestamp_get_def split_on_timestamp_string
    by (simp add: fd fm fy fh fmi)
qed

lemma slice_recovered_arch_name: "slice_8_m4 (recovered_arch_name t) = timestamp_string t"
proof -
  obtain y m d h mi where t: "t = (y, m, d, h, mi)" by (cases t)
  have "recovered_arch_name t = ''archive_'' @ timestamp_string t @ ''.zip''"
    by (simp add: t)
  then show ?thesis by (simp add: slice_8_m4_def)
qed

lemma recovered_name_readable:
  "reads_plain_timestamps arrow_get \<Longrightarrow> valid_date t \<Longrightarrow>
   date_obj_of arrow_get (recovered_arch_name t) = Inr t"
  unfolding reads_plain_timestamps_def date_obj_of_def slice_recovered_arch_name by blast


text \<open>
  Claim C2, as amended. For names of the form \<open>archive_{day}_{month}_{year}_{hour}_{minute}.zip\<close>
  whose fields are the decimal numbers, without padding, of valid dates with a year of
  four digits (the names that \<open>recovered_arch_name\<close> writes for the dates \<open>ts\<close>), and
  an \<open>arrow.get\<close> that reads the plain timestamp of a valid date as that date, the
  sorter returns exactly the input names, reordered so that their dates ascend, and
  \<open>generate_sorted_paths_to_archives\<close> returns their paths in that order.
\<close>

theorem sort_filenames_plain_names:
  "reads_plain_timestamps arrow_get \<Longrightarrow> list_all valid_date ts \<Longrightarrow>
   sort_filenames_by_date arrow_get (map recovered_arch_name ts) =
     Inr (map recovered_arch_name (sort ts))
   \<and> mset (map recovered_arch_name (sort ts)) = mset (map recovered_arch_name ts)
   \<and> map (date_obj_of arrow_get) (map recovered_arch_name (sort ts)) = map Inr (sort ts)
   \<and> sorted (sort ts)
   \<and> (os_listdir arch_dir = map recovered_arch_name ts \<longrightarrow>
        generate_sorted_paths_to_archives arrow_get os_listdir arch_dir =
          Inr (map (\<lambda>t. os_path_join arch_dir (recovered_arch_name t)) (sort ts)))"
proof -
  assume r: "reads_plain_timestamps arrow_get" and v: "list_all valid_date ts"
  let ?names = "map recovered_arch_name ts"
  have d: "\<And>t. t \<in> set ts \<Longrightarrow> date_obj_of arrow_get (recovered_arch_name t) = Inr t"
    using r v by (simp add: recovered_name_readable list_all_iff)
  then have rd: "list_all (readable_name arrow_get) ?names"
    by (simp add: list_all_iff readable_name_def)
  have "map (\<lambda>n. projr (date_obj_of arrow_get n)) ?names = map (\<lambda>t. t) ts"
    unfolding map_map by (rule map_cong [OF refl]) (simp add: d)
  then have s: "sort_filenames_by_date arrow_get ?names = Inr (map recovered_arch_name (sort ts))"
    using sort_filenames_by_date_readable [OF rd] by simp
  have m: "mset (map recovered_arch_name (sort ts)) = mset ?names" by simp
  have o: "map (date_obj_of arrow_get) (map recovered_arch_name (sort ts)) = map Inr (sort ts)"
    unfolding map_map by (rule map_cong [OF refl]) (simp add: d)
  have p: "os_listdir arch_dir = ?names \<longrightarrow>
        generate_sorted_paths_to_archives arrow_get os_listdir arch_dir =
          Inr (map (\<lambda>t. os_path_join arch_dir (recovered_arch_name t)) (sort ts))"
    using s by (simp add: generate_sorted_paths_to_archives_def foldl_append_single comp_def)
  from s m o p show ?thesis by simp
qed

theorem sort_filenames_plain_names_witness:
  "reads_plain_timestamps plain_timestamp_get
   \<and> list_all valid_date [(2020, 2, 10, 3, 4), (2020, 2, 9, 3, 4)]
   \<and> sort_filenames_by_date plain_timestamp_get
        [''archive_10_2_2020_3_4.zip'', ''archive_9_2_2020_3_4.zip'']
      = Inr [''archive_9_2_2020_3_4.zip'', ''archive_10_2_2020_3_4.zip'']
   \<and> generate_sorted_paths_to_archives plain_timestamp_get
        (\<lambda>d. [''archive_10_2_2020_3_4.zip'', ''archive_9_2_2020_3_4.zip'']) ''data''
      = Inr [''data/archive_9_2_2020_3_4.zip'', ''data/archive_10_2_2020_3_4.zip'']"
proof -
  let ?ts = "[(2020, 2, 10, 3, 4), (2020, 2, 9, 3, 4)] :: date_obj list"
  have v: "list_all valid_date ?ts"
    by (simp add: days_in_month_def leap_year_def)
  have n: "map recovered_arch_name ?ts
      = [''archive_10_2_2020_3_4.zip'', ''archive_9_2_2020_3_4.zip'']"
    by (simp add: format_nat.simps)
  have s: "sort ?ts = [(2020, 2, 9, 3, 4), (2020, 2, 10, 3, 4)]"
    by simp
  have l: "(\<lambda>d::string. [''archive_10_2_2020_3_4.zip'', ''archive_9_2_2020_3_4.zip'']) ''data''
      = map recovered_arch_name ?ts"
    using n by simp
  note t = sort_filenames_plain_names [OF plain_timestamp_get_reads v,
      of "\<lambda>d. [''archive_10_2_2020_3_4.zip'', ''archive_9_2_2020_3_4.zip'']" "''data''"]
  from t have "sort_filenames_by_date plain_timestamp_get (map recovered_arch_name ?ts)
      = Inr (map recovered_arch_name (sort ?ts))" by blast
  then have 1: "sort_filenames_by_date plain_timestamp_get
        [''archive_10_2_2020_3_4.zip'', ''archive_9_2_2020_3_4.zip'']
      = Inr [''archive_9_2_2020_3_4.zip'', ''archive_10_2_2020_3_4.zip'']"
    unfolding n s by (simp add: format_nat.simps)
  from t l have "generate_sorted_paths_to_archives plain_timestamp_get
        (\<lambda>d. [''archive_10_2_2020_3_4.zip'', ''archive_9_2_2020_3_4.zip'']) ''data''
      = Inr (map (\<lambda>t. os_path_join ''data'' (recovered_arch_name t)) (sort ?ts))" by blast
  then have 2: "generate_sorted_paths_to_archives plain_timestamp_get
        (\<lambda>d. [''archive_10_2_2020_3_4.zip'', ''archive_9_2_2020_3_4.zip'']) ''data''
      = Inr [''data/archive_9_2_2020_3_4.zip'', ''data/archive_10_2_2020_3_4.zip'']"
    unfolding s by (simp add: format_nat.simps os_path_join_def)
  from plain_timestamp_get_reads v 1 2 show ?thesis by simp
qed

text \<open>
  Claim C2 as stated fails on a name with zero-padded fields: it is read (the tokens
  \<open>D\<close>, \<open>M\<close>, \<open>H\<close> and \<open>m\<close> take one or two digits), and the name comes back
  without the padding, so the sorter does not return the input name.
\<close>

theorem sorter_rewrites_padded_name:
  "sort_filenames_by_date plain_timestamp_get [''archive_01_01_2020_00_00.zip'']
     = Inr [''archive_1_1_2020_0_0.zip''] \<and>
   sort_filenames_by_date plain_timestamp_get [''archive_01_01_2020_00_00.zip'']
     \<noteq> Inr [''archive_01_01_2020_00_00.zip'']"
  by (simp add: sorter_eval)

text \<open>
  Claim C5, as amended. When the listing of the directory holds, at any position, a
  name on whose slice \<open>arrow.get\<close> raises, the sorter raises the exception of such a
  name, and so do \<open>generate_sorted_paths_to_archives\<close> and \<open>main\<close>: no report is
  produced.
\<close>

theorem unreadable_name_aborts_run:
  "os_listdir arch_dir = before @ n # after \<Longrightarrow> arrow_get (slice_8_m4 n) = Inl e \<Longrightarrow>
   (\<exists>m \<in> set (os_listdir arch_dir). \<exists>e'. arrow_get (slice_8_m4 m) = Inl e' \<and>
      sort_filenames_by_date arrow_get (os_listdir arch_dir) = Inl e' \<and>
      generate_sorted_paths_to_archives arrow_get os_listdir arch_dir = Inl e' \<and>
      main arrow_get os_listdir zip_file bs arch_dir = Inl e')"
proof -
  assume l: "os_listdir arch_dir = before @ n # after" and n: "arrow_get (slice_8_m4 n) = Inl e"
  from n have "\<not> readable_name arrow_get n"
    by (simp add: readable_name_def date_obj_of_def)
  with l have "\<not> list_all (readable_name arrow_get) (os_listdir arch_dir)" by simp
  then obtain m e' where m: "m \<in> set (os_listdir arch_dir)" "arrow_get (slice_8_m4 m) = Inl e'"
    "sort_filenames_by_date arrow_get (os_listdir arch_dir) = Inl e'"
    using sort_filenames_by_date_error by blast
  then have g: "generate_sorted_paths_to_archives arrow_get os_listdir arch_dir = Inl e'"
    by (simp add: generate_sorted_paths_to_archives_def)
  then have "main arrow_get os_listdir zip_file bs arch_dir = Inl e'"
    by (simp add: main_def)
  with m g show ?thesis by blast
qed

theorem unreadable_name_aborts_run_witness:
  "plain_timestamp_get (slice_8_m4 ''archive_backup.zip'') = Inl (ParserError ''backup'') \<and>
   main plain_timestamp_get (\<lambda>d. [''archive_1_1_2020_0_0.zip'', ''archive_backup.zip''])
     (\<lambda>p. Some [(''ABC_1.html'', doc_with_table ''10'')]) Inr ''data''
     = Inl (ParserError ''backup'')"
proof -
  let ?ls = "\<lambda>d::string. [''archive_1_1_2020_0_0.zip'', ''archive_backup.zip'']"
  have n: "plain_timestamp_get (slice_8_m4 ''archive_backup.zip'') = Inl (ParserError ''backup'')"
    by (simp add: sorter_eval)
  have o: "plain_timestamp_get (slice_8_m4 ''archive_1_1_2020_0_0.zip'') = Inr (2020, 1, 1, 0, 0)"
    by (simp add: sorter_eval)
  have l: "?ls ''data'' = [''archive_1_1_2020_0_0.zip''] @ ''archive_backup.zip'' # []" by simp
  from unreadable_name_aborts_run [of ?ls "''data''" "[''archive_1_1_2020_0_0.zip'']"
      "''archive_backup.zip''" "[]" plain_timestamp_get "ParserError ''backup''"
      "\<lambda>p. Some [(''ABC_1.html'', doc_with_table ''10'')]" Inr, OF l n]
  obtain m e' where m: "m \<in> set (?ls ''data'')" "plain_timestamp_get (slice_8_m4 m) = Inl e'"
    "main plain_timestamp_get ?ls (\<lambda>p. Some [(''ABC_1.html'', doc_with_table ''10'')]) Inr ''data''
       = Inl e'" by blast
  from m(1,2) o n have "e' = ParserError ''backup''" by auto
  with m n show ?thesis by simp
qed

text \<open>
  Claim C5 as stated fails on a name that is not of the form \<open>archive_..._.zip\<close> but
  whose slice is a timestamp: the first eight and the last four characters are cut off
  unread, and nothing is raised.
\<close>

theorem sorter_accepts_other_prefix:
  "sort_filenames_by_date plain_timestamp_get [''XXXXXXXX1_1_2020_0_0.tar'']
     = Inr [''archive_1_1_2020_0_0.zip''] \<and>
   \<not> isl (sort_filenames_by_date plain_timestamp_get [''XXXXXXXX1_1_2020_0_0.tar''])"
  by (simp add: sorter_eval)

text \<open>
  Claim C8. Two listings that are permutations of each other, with every name read by
  \<open>arrow.get\<close>, give the same sorted list: the result depends on the dates only.
\<close>

theorem sort_filenames_permutation:
  "mset xs = mset ys \<Longrightarrow> list_all (readable_name arrow_get) xs \<Longrightarrow>
   sort_filenames_by_date arrow_get xs = sort_filenames_by_date arrow_get ys \<and>
   sort_filenames_by_date arrow_get ys =
     Inr (map recovered_arch_name (sort (map (\<lambda>n. projr (date_obj_of arrow_get n)) xs)))"
proof -
  assume p: "mset xs = mset ys" and r: "list_all (readable_name arrow_get) xs"
  let ?d = "\<lambda>n. projr (date_obj_of arrow_get n)"
  from p have "set xs = set ys" by (rule mset_eq_setD)
  with r have r': "list_all (readable_name arrow_get) ys" by (simp add: list_all_iff)
  from p have "mset (map ?d xs) = mset (map ?d ys)" by simp
  then have "sort (map ?d xs) = sort (map ?d ys)"
    by (intro properties_for_sort) simp_all
  then show ?thesis
    using r r' by (simp add: sort_filenames_by_date_readable)
qed

theorem sort_filenames_permutation_witness:
  "list_all (readable_name plain_timestamp_get)
     [''archive_10_2_2020_3_4.zip'', ''archive_09_2_2020_3_4.zip''] \<and>
   sort_filenames_by_date plain_timestamp_get
     [''archive_10_2_2020_3_4.zip'', ''archive_09_2_2020_3_4.zip'']
     = sort_filenames_by_date plain_timestamp_get
         [''archive_09_2_2020_3_4.zip'', ''archive_10_2_2020_3_4.zip'']"
proof -
  have r: "list_all (readable_name plain_timestamp_get)
      [''archive_10_2_2020_3_4.zip'', ''archive_09_2_2020_3_4.zip'']"
    by (simp add: sorter_eval)
  have p: "mset [''archive_10_2_2020_3_4.zip'', ''archive_09_2_2020_3_4.zip'']
      = mset [''archive_09_2_2020_3_4.zip'', ''archive_10_2_2020_3_4.zip'']"
    by (simp add: add_mset_commute)
  from sort_filenames_permutation [OF p r] r show ?thesis by simp
qed

section \<open>Properties of the table parser\<close>


lemma find_all_Tag:
  "find_all name (Tag n cs) =
     concat (map (\<lambda>c. (if is_tag name c then [c] else []) @ find_all name c) cs)"
  by (induction cs) (simp_all add: find_all_def)

lemma find_all_flat:
  "\<forall>c \<in> set cs. find_all name c = [] \<Longrightarrow> find_all name (Tag n cs) = filter (is_tag name) cs"
  by (induction cs) (simp_all add: find_all_Tag)

lemma parse_table_rows:
  "parse_table table =
     map (\<lambda>tr. map (\<lambda>td. strip (get_text td)) (find_all ''td'' tr)) (find_all ''tr'' table)"
  by (simp add: parse_table_def foldl_append_single)

lemma strip_decompose:
  "\<exists>a b. s = a @ strip s @ b \<and> list_all isspace a \<and> list_all isspace b"
proof -
  let ?t = "dropWhile isspace s"
  have 1: "s = takeWhile isspace s @ ?t" by simp
  have "?t = rev (takeWhile isspace (rev ?t) @ dropWhile isspace (rev ?t))"
    by (simp only: takeWhile_dropWhile_id rev_rev_ident)
  also have "\<dots> = rev (dropWhile isspace (rev ?t)) @ rev (takeWhile isspace (rev ?t))"
    by (rule rev_append)
  finally have 2: "?t = strip s @ rev (takeWhile isspace (rev ?t))"
    by (simp only: strip_def)
  have "s = takeWhile isspace s @ strip s @ rev (takeWhile isspace (rev ?t))"
    using 1 2 by metis
  moreover have "list_all isspace (takeWhile isspace s)"
    by (simp add: list_all_iff) (meson set_takeWhileD)
  moreover have "list_all isspace (rev (takeWhile isspace (rev ?t)))"
    by (simp add: list_all_iff) (meson set_takeWhileD)
  ultimately show ?thesis by blast
qed

lemma strip_ends:
  assumes "strip s \<noteq> []"
  shows "\<not> isspace (hd (strip s)) \<and> \<not> isspace (last (strip s))"
proof -
  let ?t = "dropWhile isspace s"
  let ?u = "dropWhile isspace (rev ?t)"
  from assms have u: "?u \<noteq> []" by (simp add: strip_def)
  then have "\<not> isspace (hd ?u)" by (rule hd_dropWhile)
  then have l: "\<not> isspace (last (strip s))"
    using u by (simp add: strip_def last_rev)
  have t: "?t \<noteq> []"
  proof
    assume "?t = []"
    then have "?u = []" by (simp only: rev.simps dropWhile.simps)
    with u show False ..
  qed
  then have h: "\<not> isspace (hd ?t)" by (rule hd_dropWhile)
  have "?t = rev (takeWhile isspace (rev ?t) @ ?u)"
    by (simp only: takeWhile_dropWhile_id rev_rev_ident)
  also have "\<dots> = rev ?u @ rev (takeWhile isspace (rev ?t))"
    by (rule rev_append)
  finally have "hd ?t = hd (rev ?u @ rev (takeWhile isspace (rev ?t)))"
    by (rule arg_cong)
  also have "\<dots> = hd (rev ?u)" using u by (intro hd_append2) simp
  finally have "hd ?t = hd (strip s)" by (simp only: strip_def)
  with h l show ?thesis by simp
qed

text \<open>The equations that evaluate the parser on a concrete document.\<close>

lemmas parser_eval = parse_html_def parse_entry_def re_match_def is_upper_def find_first_def
  find_all_def parse_table_def strip_def isspace_def dict_set_def entry_parses_def
  entry_skipped_def entry_raises_def doc_with_table_def doc_without_table_def

text \<open>
  Claim C6. \<open>_parse_table\<close> returns one row for each \<open>tr\<close> below the table, in
  document order, and a row holds the stripped text of each \<open>td\<close> below that \<open>tr\<close>, in
  document order. For a table whose children are its rows, the rows are those children;
  for a row whose cells hold no further \<open>td\<close>, the row is made of its \<open>td\<close> children
  only, the \<open>th\<close> children adding nothing; a row of header cells only is the empty row.
  Stripping removes whitespace at the two ends of a string and nothing else.
\<close>

theorem parse_table_data_cells:
  "parse_table table =
     map (\<lambda>tr. map (\<lambda>td. strip (get_text td)) (find_all ''td'' tr)) (find_all ''tr'' table)
   \<and> ((\<forall>r \<in> set rows. is_tag ''tr'' r \<and> find_all ''tr'' r = []) \<longrightarrow>
        parse_table (Tag ''table'' rows) =
          map (\<lambda>tr. map (\<lambda>td. strip (get_text td)) (find_all ''td'' tr)) rows)
   \<and> ((\<forall>c \<in> set cells. find_all ''td'' c = []) \<longrightarrow>
        map (\<lambda>td. strip (get_text td)) (find_all ''td'' (Tag ''tr'' cells)) =
          map (\<lambda>td. strip (get_text td)) (filter (is_tag ''td'') cells))
   \<and> ((\<forall>c \<in> set cells. is_tag ''th'' c \<and> find_all ''td'' c = [] \<and> find_all ''tr'' c = []) \<longrightarrow>
        parse_table (Tag ''table'' [Tag ''tr'' cells]) = [[]])
   \<and> (\<exists>a b. s = a @ strip s @ b \<and> list_all isspace a \<and> list_all isspace b)
   \<and> (strip s \<noteq> [] \<longrightarrow> \<not> isspace (hd (strip s)) \<and> \<not> isspace (last (strip s)))"
proof (intro conjI impI)
  show "parse_table table =
     map (\<lambda>tr. map (\<lambda>td. strip (get_text td)) (find_all ''td'' tr)) (find_all ''tr'' table)"
    by (rule parse_table_rows)
next
  assume "\<forall>r \<in> set rows. is_tag ''tr'' r \<and> find_all ''tr'' r = []"
  then have "find_all ''tr'' (Tag ''table'' rows) = rows"
    by (simp add: find_all_flat filter_id_conv)
  then show "parse_table (Tag ''table'' rows) =
          map (\<lambda>tr. map (\<lambda>td. strip (get_text td)) (find_all ''td'' tr)) rows"
    by (simp add: parse_table_rows)
next
  assume h: "\<forall>c \<in> set cells. find_all ''td'' c = []"
  then have "find_all ''td'' (Tag ''tr'' cells) = filter (is_tag ''td'') cells"
    by (rule find_all_flat)
  then show "map (\<lambda>td. strip (get_text td)) (find_all ''td'' (Tag ''tr'' cells)) =
          map (\<lambda>td. strip (get_text td)) (filter (is_tag ''td'') cells)"
    by simp
next
  assume h: "\<forall>c \<in> set cells. is_tag ''th'' c \<and> find_all ''td'' c = [] \<and> find_all ''tr'' c = []"
  have th: "\<And>c. is_tag ''th'' c \<Longrightarrow> \<not> is_tag ''td'' c \<and> \<not> is_tag ''tr'' c"
  proof -
    fix c assume "is_tag ''th'' c" then show "\<not> is_tag ''td'' c \<and> \<not> is_tag ''tr'' c"
      by (cases c) simp_all
  qed
  from h have "find_all ''td'' (Tag ''tr'' cells) = filter (is_tag ''td'') cells"
    by (intro find_all_flat) simp
  moreover from h th have "filter (is_tag ''td'') cells = []"
    by (simp add: filter_empty_conv)
  moreover from h have "find_all ''tr'' (Tag ''tr'' cells) = filter (is_tag ''tr'') cells"
    by (intro find_all_flat) simp
  moreover from h th have "filter (is_tag ''tr'') cells = []"
    by (simp add: filter_empty_conv)
  ultimately show "parse_table (Tag ''table'' [Tag ''tr'' cells]) = [[]]"
    by (simp add: parse_table_rows find_all_Tag [of _ "''table''"])
next
  show "\<exists>a b. s = a @ strip s @ b \<and> list_all isspace a \<and> list_all isspace b"
    by (rule strip_decompose)
next
  assume "strip s \<noteq> []"
  then show "\<not> isspace (hd (strip s))" using strip_ends by blast
next
  assume "strip s \<noteq> []"
  then show "\<not> isspace (last (strip s))" using strip_ends by blast
qed

theorem parse_table_data_cells_witness:
  "parse_table (Tag ''table''
      [Tag ''tr'' [Tag ''th'' [NavigableString ''Date''], Tag ''th'' [NavigableString ''Open'']],
       Tag ''tr'' [Tag ''td'' [NavigableString '' 10 ''], Tag ''th'' [NavigableString ''x''],
                   Tag ''td'' [Tag ''span'' [NavigableString ''20''], NavigableString ''  '']]])
     = [[], [''10'', ''20'']]
   \<and> parse_table (Tag ''table'' [Tag ''tr'' [Tag ''th'' [NavigableString ''Date'']]]) = [[]]
   \<and> strip '' 10 '' = ''10'' \<and> \<not> isspace (hd (strip '' 10 ''))"
proof -
  let ?r1 = "Tag ''tr'' [Tag ''th'' [NavigableString ''Date''], Tag ''th'' [NavigableString ''Open'']]"
  let ?r2 = "Tag ''tr'' [Tag ''td'' [NavigableString '' 10 ''], Tag ''th'' [NavigableString ''x''],
                   Tag ''td'' [Tag ''span'' [NavigableString ''20''], NavigableString ''  '']]"
  have rows: "\<forall>r \<in> set [?r1, ?r2]. is_tag ''tr'' r \<and> find_all ''tr'' r = []"
    by (simp add: find_all_def)
  have cells: "\<forall>c \<in> set [Tag ''th'' [NavigableString ''Date'']].
      is_tag ''th'' c \<and> find_all ''td'' c = [] \<and> find_all ''tr'' c = []"
    by (simp add: find_all_def)
  have "parse_table (Tag ''table'' [?r1, ?r2]) =
      map (\<lambda>tr. map (\<lambda>td. strip (get_text td)) (find_all ''td'' tr)) [?r1, ?r2]"
    using parse_table_data_cells [of "Tag ''table'' [?r1, ?r2]" "[?r1, ?r2]" "[]"] rows by blast
  then have 1: "parse_table (Tag ''table'' [?r1, ?r2]) = [[], [''10'', ''20'']]"
    by (simp add: find_all_def strip_def isspace_def)
  have 2: "parse_table (Tag ''table'' [Tag ''tr'' [Tag ''th'' [NavigableString ''Date'']]]) = [[]]"
    using parse_table_data_cells [of "Tag ''table'' []" "[]" "[Tag ''th'' [NavigableString ''Date'']]"]
      cells by blast
  have 3: "strip '' 10 '' = ''10''" by (simp add: strip_def isspace_def)
  then have "strip '' 10 '' \<noteq> []" by simp
  then have 4: "\<not> isspace (hd (strip '' 10 ''))"
    using parse_table_data_cells [of "Tag ''table'' []" "[]" "[]" "'' 10 ''"] by blast
  from 1 2 3 4 show ?thesis by simp
qed

section \<open>Properties of \<open>parse_html\<close>\<close>

lemma entry_cases:
  "entry_parses bs e \<or> entry_skipped bs e \<or> entry_raises bs e"
  by (cases "parse_entry bs (fst e) (snd e)")
     (auto simp: entry_parses_def entry_skipped_def entry_raises_def)

lemma entry_skipped_iff:
  "entry_skipped bs (key, value) =
     (\<not> (3 \<le> length key \<and> list_all is_upper (take 3 key)) \<or> bs value = Inl AttributeError
      \<or> (\<exists>soup. bs value = Inr soup \<and> find_first ''table'' soup = None))"
  by (auto simp: entry_skipped_def parse_entry_def re_match_def split: option.splits sum.splits)

lemma parse_html_loop_append:
  "parse_html_loop bs acc (xs @ ys) =
     (case parse_html_loop bs acc xs of
        Inl e \<Rightarrow> Inl e
      | Inr acc' \<Rightarrow> parse_html_loop bs acc' ys)"
proof (induction xs arbitrary: acc)
  case Nil show ?case by simp
next
  case (Cons x xs)
  obtain k v where x: "x = (k, v)" by (cases x)
  show ?case by (simp add: x Cons.IH split: sum.splits)
qed

lemma parse_html_loop_skip:
  "entry_skipped bs (key, value) \<Longrightarrow>
   parse_html_loop bs acc ((key, value) # rest) = parse_html_loop bs acc rest"
  by (simp add: entry_skipped_def)

lemma parse_html_loop_filter:
  "parse_html_loop bs acc (filter (\<lambda>e. \<not> entry_skipped bs e) d) = parse_html_loop bs acc d"
proof (induction d arbitrary: acc)
  case Nil show ?case by simp
next
  case (Cons x d)
  obtain k v where x: "x = (k, v)" by (cases x)
  show ?case
  proof (cases "entry_skipped bs (k, v)")
    case True
    then show ?thesis by (simp add: x Cons.IH parse_html_loop_skip del: parse_html_loop.simps)
  next
    case False
    then have ne: "parse_entry bs k v \<noteq> Inl AttributeError"
      by (simp add: entry_skipped_def)
    from False have "filter (\<lambda>e. \<not> entry_skipped bs e) (x # d)
        = x # filter (\<lambda>e. \<not> entry_skipped bs e) d"
      by (simp add: x)
    then show ?thesis
      using ne by (auto simp: x Cons.IH split: sum.splits)
  qed
qed

lemma parse_html_loop_returns:
  "list_all (\<lambda>e. \<not> entry_raises bs e) d \<Longrightarrow> \<exists>snap. parse_html_loop bs acc d = Inr snap"
proof (induction d arbitrary: acc)
  case Nil show ?case by simp
next
  case (Cons x d)
  obtain k v where x: "x = (k, v)" by (cases x)
  from Cons.prems have "\<not> entry_raises bs (k, v)" and "list_all (\<lambda>e. \<not> entry_raises bs e) d"
    by (simp_all add: x)
  then show ?case
    using Cons.IH by (cases "parse_entry bs k v") (auto simp: x entry_raises_def)
qed

lemma parse_html_loop_error:
  "parse_html_loop bs acc d = Inl e \<Longrightarrow>
   \<exists>(k, v) \<in> set d. parse_entry bs k v = Inl e \<and> e \<noteq> AttributeError"
proof (induction d arbitrary: acc)
  case Nil then show ?case by simp
next
  case (Cons x d)
  obtain k v where x: "x = (k, v)" by (cases x)
  show ?case
    using Cons.prems Cons.IH
    by (cases "parse_entry bs k v") (auto simp: x split: if_splits)
qed

lemma parse_html_loop_distinct:
  "distinct (map fst acc) \<Longrightarrow> parse_html_loop bs acc d = Inr snap \<Longrightarrow> distinct (map fst snap)"
proof (induction d arbitrary: acc)
  case Nil then show ?case by simp
next
  case (Cons x d)
  obtain k v where x: "x = (k, v)" by (cases x)
  show ?case
  proof (cases "parse_entry bs k v")
    case (Inl e)
    with Cons.prems Cons.IH [of acc] show ?thesis by (auto simp: x split: if_splits)
  next
    case (Inr r)
    obtain c' t' where r: "r = (c', t')" by (cases r)
    from Cons.prems(1) have "distinct (map fst (dict_set acc c' t'))"
      by (simp add: dict_set_def distinct_update)
    from Cons.IH [OF this] Cons.prems(2) Inr show ?thesis by (simp add: x r)
  qed
qed

lemma parse_html_loop_untouched:
  "\<forall>(k, v) \<in> set d. \<forall>t. parse_entry bs k v \<noteq> Inr (c, t) \<Longrightarrow>
   parse_html_loop bs acc d = Inr snap \<Longrightarrow> map_of snap c = map_of acc c"
proof (induction d arbitrary: acc)
  case Nil then show ?case by simp
next
  case (Cons x d)
  obtain k v where x: "x = (k, v)" by (cases x)
  from Cons.prems have rest: "\<forall>(k, v) \<in> set d. \<forall>t. parse_entry bs k v \<noteq> Inr (c, t)"
    by simp
  show ?case
  proof (cases "parse_entry bs k v")
    case (Inl e)
    then show ?thesis using Cons.IH [OF rest, of acc] Cons.prems(2)
      by (auto simp: x split: if_splits)
  next
    case (Inr r)
    obtain c' t' where r: "r = (c', t')" by (cases r)
    with Inr Cons.prems(1) have "c' \<noteq> c" by (auto simp: x)
    then show ?thesis
      using Cons.IH [OF rest, of "dict_set acc c' t'"] Inr Cons.prems(2)
      by (simp add: x r dict_set_def update_conv')
  qed
qed

lemma parse_html_loop_last:
  assumes "parse_entry bs key value = Inr (c, t)"
    and "\<forall>(k, v) \<in> set after. \<forall>t'. parse_entry bs k v \<noteq> Inr (c, t')"
    and "parse_html_loop bs acc (before @ (key, value) # after) = Inr snap"
  shows "map_of snap c = Some t"
proof -
  from assms(3) obtain acc' where a: "parse_html_loop bs acc before = Inr acc'"
    and b: "parse_html_loop bs (dict_set acc' c t) after = Inr snap"
    using assms(1) by (auto simp: parse_html_loop_append split: sum.splits)
  from parse_html_loop_untouched [OF assms(2) b]
  show ?thesis by (simp add: dict_set_def update_conv')
qed

lemma parse_html_loop_keys:
  "parse_html_loop bs acc d = Inr snap \<Longrightarrow>
   fst ` set snap =
     fst ` set acc \<union> {c. \<exists>(k, v) \<in> set d. \<exists>t. parse_entry bs k v = Inr (c, t)}"
proof (induction d arbitrary: acc)
  case Nil then show ?case by auto
next
  case (Cons x d)
  obtain k v where x: "x = (k, v)" by (cases x)
  show ?case
  proof (cases "parse_entry bs k v")
    case (Inl e)
    with Cons.prems have "parse_html_loop bs acc d = Inr snap"
      by (auto simp: x split: if_splits)
    from Cons.IH [OF this] Inl show ?thesis by (auto simp: x)
  next
    case (Inr r)
    obtain c' t' where r: "r = (c', t')" by (cases r)
    with Cons.prems Inr have "parse_html_loop bs (dict_set acc c' t') d = Inr snap"
      by (simp add: x)
    from Cons.IH [OF this] Inr show ?thesis
      by (auto simp: x r dict_set_def dom_update)
  qed
qed

lemma parse_html_loop_origin:
  "parse_html_loop bs acc d = Inr snap \<Longrightarrow> map_of snap c = Some t \<Longrightarrow>
   map_of acc c = Some t \<or> (\<exists>(k, v) \<in> set d. parse_entry bs k v = Inr (c, t))"
proof (induction d arbitrary: acc)
  case Nil then show ?case by simp
next
  case (Cons x d)
  obtain k v where x: "x = (k, v)" by (cases x)
  show ?case
  proof (cases "parse_entry bs k v")
    case (Inl e)
    with Cons.prems have "parse_html_loop bs acc d = Inr snap"
      by (auto simp: x split: if_splits)
    from Cons.IH [OF this Cons.prems(2)] show ?thesis by auto
  next
    case (Inr r)
    obtain c' t' where r: "r = (c', t')" by (cases r)
    with Cons.prems Inr have "parse_html_loop bs (dict_set acc c' t') d = Inr snap"
      by (simp add: x)
    from Cons.IH [OF this Cons.prems(2)] show ?thesis
      using Inr by (auto simp: x r dict_set_def update_conv' split: if_splits)
  qed
qed

lemma parse_html_loop_all_skipped:
  "list_all (entry_skipped bs) d \<Longrightarrow> parse_html_loop bs acc d = Inr acc"
proof (induction d arbitrary: acc)
  case Nil show ?case by simp
next
  case (Cons x d)
  obtain k v where x: "x = (k, v)" by (cases x)
  from Cons.prems have "entry_skipped bs (k, v)" by (simp add: x)
  then have "parse_html_loop bs acc (x # d) = parse_html_loop bs acc d"
    unfolding x by (rule parse_html_loop_skip)
  with Cons show ?case by simp
qed

text \<open>
  Claim C3, as amended. An entry whose name does not start with three upper-case
  letters, or for whose bytes BeautifulSoup builds a tree with no table, is skipped:
  the result is what it is without the entry, and the entries after it are processed.
  When no entry raises an exception other than AttributeError, \<open>parse_html\<close> returns
  a dict whose keys are the company names of the entries that parse, and every table in
  it is the table of such an entry. \<open>ABC_2021.html\<close> gives \<open>ABC\<close>;
  \<open>abc_2021.html\<close> is skipped and the rest of the archive is parsed.
\<close>

theorem parse_html_skips_failed_entries:
  "(entry_skipped bs (key, value) \<longrightarrow>
      parse_html bs (before @ (key, value) # after) = parse_html bs (before @ after))
   \<and> entry_skipped bs (key, value) =
       (\<not> (3 \<le> length key \<and> list_all is_upper (take 3 key)) \<or> bs value = Inl AttributeError
        \<or> (\<exists>soup. bs value = Inr soup \<and> find_first ''table'' soup = None))
   \<and> parse_html bs html_dict = parse_html bs (filter (\<lambda>e. \<not> entry_skipped bs e) html_dict)
   \<and> (list_all (\<lambda>e. \<not> entry_raises bs e) html_dict \<longrightarrow>
        (\<exists>snap. parse_html bs html_dict = Inr snap
           \<and> fst ` set snap = {c. \<exists>(k, v) \<in> set html_dict. \<exists>t. parse_entry bs k v = Inr (c, t)}
           \<and> (\<forall>c t. (c, t) \<in> set snap \<longrightarrow>
                 (\<exists>(k, v) \<in> set html_dict. parse_entry bs k v = Inr (c, t)))))
   \<and> map_option fst (re_match ''ABC_2021.html'') = Some ''ABC''
   \<and> re_match ''abc_2021.html'' = None
   \<and> parse_html bs ((''abc_2021.html'', value) # after) = parse_html bs after"
proof (intro conjI impI)
  assume "entry_skipped bs (key, value)"
  then have "\<And>acc. parse_html_loop bs acc ((key, value) # after) = parse_html_loop bs acc after"
    by (rule parse_html_loop_skip)
  then show "parse_html bs (before @ (key, value) # after) = parse_html bs (before @ after)"
    by (simp add: parse_html_def parse_html_loop_append del: parse_html_loop.simps
        split: sum.splits)
next
  show "entry_skipped bs (key, value) =
       (\<not> (3 \<le> length key \<and> list_all is_upper (take 3 key)) \<or> bs value = Inl AttributeError
        \<or> (\<exists>soup. bs value = Inr soup \<and> find_first ''table'' soup = None))"
    by (rule entry_skipped_iff)
next
  show "parse_html bs html_dict = parse_html bs (filter (\<lambda>e. \<not> entry_skipped bs e) html_dict)"
    by (simp add: parse_html_def parse_html_loop_filter)
next
  assume "list_all (\<lambda>e. \<not> entry_raises bs e) html_dict"
  then obtain snap where s: "parse_html_loop bs [] html_dict = Inr snap"
    using parse_html_loop_returns by blast
  have k: "fst ` set snap = {c. \<exists>(k, v) \<in> set html_dict. \<exists>t. parse_entry bs k v = Inr (c, t)}"
    using parse_html_loop_keys [OF s] by simp
  have d: "distinct (map fst snap)"
    using parse_html_loop_distinct [OF _ s] by simp
  have o: "\<forall>c t. (c, t) \<in> set snap \<longrightarrow>
      (\<exists>(k, v) \<in> set html_dict. parse_entry bs k v = Inr (c, t))"
  proof (intro allI impI)
    fix c t assume "(c, t) \<in> set snap"
    with d have "map_of snap c = Some t" by simp
    from parse_html_loop_origin [OF s this]
    show "\<exists>(k, v) \<in> set html_dict. parse_entry bs k v = Inr (c, t)" by simp
  qed
  from s k o show "\<exists>snap. parse_html bs html_dict = Inr snap
           \<and> fst ` set snap = {c. \<exists>(k, v) \<in> set html_dict. \<exists>t. parse_entry bs k v = Inr (c, t)}
           \<and> (\<forall>c t. (c, t) \<in> set snap \<longrightarrow>
                 (\<exists>(k, v) \<in> set html_dict. parse_entry bs k v = Inr (c, t)))"
    by (simp add: parse_html_def)
next
  show "map_option fst (re_match ''ABC_2021.html'') = Some ''ABC''"
    by (simp add: re_match_def is_upper_def)
next
  show "re_match ''abc_2021.html'' = None"
    by (simp add: re_match_def is_upper_def)
next
  have "entry_skipped bs (''abc_2021.html'', value)"
    by (simp add: entry_skipped_iff is_upper_def)
  then show "parse_html bs ((''abc_2021.html'', value) # after) = parse_html bs after"
    by (simp add: parse_html_def parse_html_loop_skip del: parse_html_loop.simps)
qed

theorem parse_html_skips_failed_entries_witness:
  "entry_skipped Inr (''abc_2021.html'', doc_with_table ''10'')
   \<and> entry_skipped Inr (''ABC_2021.html'', doc_without_table)
   \<and> parse_html Inr
        [(''XYZ_1.html'', doc_with_table ''10''), (''abc_2021.html'', doc_with_table ''10''),
         (''ABC_2021.html'', doc_without_table), (''DEF_2.html'', doc_with_table '' 20 '')]
      = Inr [(''XYZ'', [[], [''10'']]), (''DEF'', [[], [''20'']])]"
proof -
  have a: "entry_skipped Inr (''abc_2021.html'', doc_with_table ''10'')"
    by (simp add: parser_eval)
  have b: "entry_skipped Inr (''ABC_2021.html'', doc_without_table)"
    by (simp add: parser_eval)
  have "parse_html Inr
        ([(''XYZ_1.html'', doc_with_table ''10'')] @ (''abc_2021.html'', doc_with_table ''10'') #
         [(''ABC_2021.html'', doc_without_table), (''DEF_2.html'', doc_with_table '' 20 '')])
      = parse_html Inr ([(''XYZ_1.html'', doc_with_table ''10'')] @
         [(''ABC_2021.html'', doc_without_table), (''DEF_2.html'', doc_with_table '' 20 '')])"
    using parse_html_skips_failed_entries [of Inr "''abc_2021.html''" "doc_with_table ''10''"
        "[(''XYZ_1.html'', doc_with_table ''10'')]"
        "[(''ABC_2021.html'', doc_without_table), (''DEF_2.html'', doc_with_table '' 20 '')]" "[]"] a
    by blast
  also have "\<dots> = Inr [(''XYZ'', [[], [''10'']]), (''DEF'', [[], [''20'']])]"
    by (simp add: parser_eval)
  finally show ?thesis using a b by simp
qed

text \<open>
  Claim C3 as stated fails on an entry whose bytes hold no table and make the parser
  raise: the exception is not an AttributeError, the entry is not skipped, and the
  entry after it, which has a table, is never processed.
\<close>

theorem rejected_markup_aborts_parse_html:
  "parse_html bs_examples
     [(''ABC_1.html'', ''<![foo bar]>''),
      (''DEF_2.html'', ''<table><tr><th>Open</th></tr><tr><td>10</td></tr></table>'')]
     = Inl ParserRejectedMarkup
   \<and> parse_html bs_examples
     [(''DEF_2.html'', ''<table><tr><th>Open</th></tr><tr><td>10</td></tr></table>'')]
     = Inr [(''DEF'', [[], [''10'']])]"
  by (simp add: parser_eval bs_examples_def)

text \<open>
  Claim C7. The keys of the result are distinct, and when several entries give the same
  company name, the result maps the name to the table of the last such entry in the
  order of the listing, and to no other table. \<open>parse_html\<close> returns a result when no
  entry raises an exception other than AttributeError.
\<close>

theorem parse_html_last_entry_wins:
  "(parse_html bs html_dict = Inr snap \<longrightarrow> distinct (map fst snap))
   \<and> (parse_entry bs key value = Inr (c, t) \<and>
      (\<forall>(k, v) \<in> set after. \<forall>t'. parse_entry bs k v \<noteq> Inr (c, t')) \<and>
      parse_html bs (before @ (key, value) # after) = Inr snap' \<longrightarrow>
        map_of snap' c = Some t \<and> (\<forall>t'. (c, t') \<in> set snap' \<longleftrightarrow> t' = t))
   \<and> (list_all (\<lambda>e. \<not> entry_raises bs e) html_dict \<longrightarrow>
        (\<exists>snap. parse_html bs html_dict = Inr snap))"
proof (intro conjI impI)
  assume "parse_html bs html_dict = Inr snap"
  then show "distinct (map fst snap)"
    using parse_html_loop_distinct [of "[]" bs html_dict snap] by (simp add: parse_html_def)
next
  assume h: "parse_entry bs key value = Inr (c, t) \<and>
      (\<forall>(k, v) \<in> set after. \<forall>t'. parse_entry bs k v \<noteq> Inr (c, t')) \<and>
      parse_html bs (before @ (key, value) # after) = Inr snap'"
  then have s: "parse_html_loop bs [] (before @ (key, value) # after) = Inr snap'"
    by (simp add: parse_html_def)
  from h show m: "map_of snap' c = Some t"
    using parse_html_loop_last [OF _ _ s] by blast
  have "distinct (map fst snap')"
    using parse_html_loop_distinct [OF _ s] by simp
  then show "\<forall>t'. (c, t') \<in> set snap' \<longleftrightarrow> t' = t"
    using m by (metis map_of_eq_Some_iff option.inject)
next
  assume "list_all (\<lambda>e. \<not> entry_raises bs e) html_dict"
  then show "\<exists>snap. parse_html bs html_dict = Inr snap"
    using parse_html_loop_returns [of bs html_dict "[]"] by (simp add: parse_html_def)
qed

theorem parse_html_last_entry_wins_witness:
  "parse_entry Inr ''ABC_b.html'' (doc_with_table ''20'') = Inr (''ABC'', [[], [''20'']])
   \<and> parse_html Inr
        [(''ABC_a.html'', doc_with_table ''10''), (''ABC_b.html'', doc_with_table ''20''),
         (''XYZ_1.html'', doc_with_table ''10'')]
      = Inr [(''ABC'', [[], [''20'']]), (''XYZ'', [[], [''10'']])]
   \<and> map_of [(''ABC'', [[], [''20'']]), (''XYZ'', [[], [''10'']])] ''ABC'' = Some [[], [''20'']]"
proof -
  let ?d = "[(''ABC_a.html'', doc_with_table ''10'')] @ (''ABC_b.html'', doc_with_table ''20'') #
         [(''XYZ_1.html'', doc_with_table ''10'')]"
  let ?snap = "[(''ABC'', [[], [''20'']]), (''XYZ'', [[], [''10'']])] :: snapshot"
  have e: "parse_entry Inr ''ABC_b.html'' (doc_with_table ''20'') = Inr (''ABC'', [[], [''20'']])"
    by (simp add: parser_eval)
  have n: "\<forall>(k, v) \<in> set [(''XYZ_1.html'', doc_with_table ''10'')].
      \<forall>t'. parse_entry Inr k v \<noteq> Inr (''ABC'', t')"
    by (simp add: parser_eval)
  have p: "parse_html Inr ?d = Inr ?snap"
    by (simp add: parser_eval)
  have "map_of ?snap ''ABC'' = Some [[], [''20'']]"
    using parse_html_last_entry_wins [of Inr "[]" "[]" "''ABC_b.html''" "doc_with_table ''20''"
        "''ABC''" "[[], [''20'']]" "[(''XYZ_1.html'', doc_with_table ''10'')]"
        "[(''ABC_a.html'', doc_with_table ''10'')]" ?snap] e n p
    by blast
  with e p show ?thesis by simp
qed

text \<open>
  Claim C10. For a name that starts with three upper-case letters the company name is
  those three letters, whatever follows. \<open>ABCD2021.html\<close> gives \<open>ABC\<close>, the key of
  \<open>ABC_2021.html\<close>: with both in one archive, the one listed later overwrites the other.
\<close>

theorem company_name_is_first_three_letters:
  "(3 \<le> length key \<and> list_all is_upper (take 3 key) \<longrightarrow>
      map_option fst (re_match key) = Some (take 3 key))
   \<and> (3 \<le> length key \<and> list_all is_upper (take 3 key) \<and>
      bs value = Inr soup \<and> find_first ''table'' soup = Some table \<longrightarrow>
        parse_entry bs key value = Inr (take 3 key, parse_table table))
   \<and> map_option fst (re_match ''ABCD2021.html'') = Some ''ABC''
   \<and> (bs v1 = Inr s1 \<and> find_first ''table'' s1 = Some t1 \<and>
      bs v2 = Inr s2 \<and> find_first ''table'' s2 = Some t2 \<longrightarrow>
        parse_html bs [(''ABC_2021.html'', v1), (''ABCD2021.html'', v2)]
          = Inr [(''ABC'', parse_table t2)]
        \<and> parse_html bs [(''ABCD2021.html'', v2), (''ABC_2021.html'', v1)]
          = Inr [(''ABC'', parse_table t1)])"
  by (simp add: re_match_def parse_entry_def parse_html_def dict_set_def is_upper_def)

theorem company_name_is_first_three_letters_witness:
  "find_first ''table'' (doc_with_table ''10'') \<noteq> None
   \<and> parse_html Inr
        [(''ABC_2021.html'', doc_with_table ''10''), (''ABCD2021.html'', doc_with_table ''20'')]
      = Inr [(''ABC'', [[], [''20'']])]"
proof -
  let ?t = "\<lambda>s. Tag ''table''
          [Tag ''tr'' [Tag ''th'' [NavigableString ''Open'']],
           Tag ''tr'' [Tag ''td'' [NavigableString s]]]"
  have a: "find_first ''table'' (doc_with_table ''10'') = Some (?t ''10'')"
    and b: "find_first ''table'' (doc_with_table ''20'') = Some (?t ''20'')"
    by (simp_all add: find_first_def find_all_def doc_with_table_def)
  have i: "(Inr :: node \<Rightarrow> error + node) (doc_with_table ''10'') = Inr (doc_with_table ''10'')"
    and j: "(Inr :: node \<Rightarrow> error + node) (doc_with_table ''20'') = Inr (doc_with_table ''20'')"
    by simp_all
  have "parse_html Inr
        [(''ABC_2021.html'', doc_with_table ''10''), (''ABCD2021.html'', doc_with_table ''20'')]
      = Inr [(''ABC'', parse_table (?t ''20''))]"
    using company_name_is_first_three_letters [of "''ABC''" Inr "doc_with_table ''10''"
        "doc_with_table ''10''" "?t ''10''" "doc_with_table ''10''" "doc_with_table ''10''" "?t ''10''"
        "doc_with_table ''20''" "doc_with_table ''20''" "?t ''20''"] a b i j
    by blast
  moreover have "parse_table (?t ''20'') = [[], [''20'']]"
    by (simp add: parser_eval)
  ultimately show ?thesis using a by simp
qed

text \<open>
  Claim C9, as amended. An archive in which every entry is skipped (a name without
  the three upper-case letters, or a tree with no table) parses to the empty dict, and
  so the later of two consecutive archives of this kind is reported as a duplicate,
  whatever their entries are.
\<close>

theorem empty_snapshots_are_duplicates:
  "(list_all (entry_skipped bs) html_dict \<longrightarrow> parse_html bs html_dict = Inr [])
   \<and> (1 \<le> i \<and> i < length ps \<and> i < length raws \<and> length html_dicts = length raws \<and>
      (\<forall>j < length raws. parse_html bs (raws ! j) = Inr (html_dicts ! j)) \<and>
      list_all (entry_skipped bs) (raws ! i) \<and>
      list_all (entry_skipped bs) (raws ! (i - 1)) \<longrightarrow>
        ps ! i \<in> set (duplicate_arch_paths_of ps html_dicts))"
proof (intro conjI impI)
  assume "list_all (entry_skipped bs) html_dict"
  then show "parse_html bs html_dict = Inr []"
    by (simp add: parse_html_def parse_html_loop_all_skipped)
next
  assume h: "1 \<le> i \<and> i < length ps \<and> i < length raws \<and> length html_dicts = length raws \<and>
      (\<forall>j < length raws. parse_html bs (raws ! j) = Inr (html_dicts ! j)) \<and>
      list_all (entry_skipped bs) (raws ! i) \<and>
      list_all (entry_skipped bs) (raws ! (i - 1))"
  then have "parse_html bs (raws ! i) = Inr []" "parse_html bs (raws ! (i - 1)) = Inr []"
    by (simp_all add: parse_html_def parse_html_loop_all_skipped)
  moreover from h have "i - 1 < length raws" by arith
  ultimately have "html_dicts ! i = []" "html_dicts ! (i - 1) = []"
    using h by (metis sum.inject(2))+
  then have "dict_eq (html_dicts ! i) (html_dicts ! (i - 1))"
    by (simp add: dict_eq_def)
  then show "ps ! i \<in> set (duplicate_arch_paths_of ps html_dicts)"
    using h by (auto simp: duplicate_arch_paths_of_index)
qed

theorem empty_snapshots_are_duplicates_witness:
  "[(''abc_2021.html'', doc_with_table ''10'')] \<noteq> [(''ABC_2021.html'', doc_without_table)]
   \<and> parse_html Inr [(''abc_2021.html'', doc_with_table ''10'')] = Inr []
   \<and> parse_html Inr [(''ABC_2021.html'', doc_without_table)] = Inr []
   \<and> ''b'' \<in> set (duplicate_arch_paths_of [''a'', ''b''] [[], []])"
proof -
  let ?raws = "[[(''abc_2021.html'', doc_with_table ''10'')], [(''ABC_2021.html'', doc_without_table)]]"
  let ?ds = "[[], []] :: snapshot list"
  have s0: "list_all (entry_skipped Inr) (?raws ! 0)" and s1: "list_all (entry_skipped Inr) (?raws ! 1)"
    by (simp_all add: parser_eval)
  have p0: "parse_html Inr (?raws ! 0) = Inr []"
    using empty_snapshots_are_duplicates [of Inr "?raws ! 0" 0 "[]" "[]" "[]"] s0 by blast
  have p1: "parse_html Inr (?raws ! 1) = Inr []"
    using empty_snapshots_are_duplicates [of Inr "?raws ! 1" 0 "[]" "[]" "[]"] s1 by blast
  have all: "\<forall>j < length ?raws. parse_html Inr (?raws ! j) = Inr (?ds ! j)"
    using p0 p1 by (auto simp: less_Suc_eq)
  have h: "1 \<le> (1::nat) \<and> 1 < length [''a'', ''b''] \<and> 1 < length ?raws \<and>
      length ?ds = length ?raws \<and>
      (\<forall>j < length ?raws. parse_html Inr (?raws ! j) = Inr (?ds ! j)) \<and>
      list_all (entry_skipped Inr) (?raws ! 1) \<and>
      list_all (entry_skipped Inr) (?raws ! (1 - 1))"
    using all s0 s1 by simp
  have "[''a'', ''b''] ! 1 \<in> set (duplicate_arch_paths_of [''a'', ''b''] ?ds)"
    using empty_snapshots_are_duplicates [of Inr "[]" 1 "[''a'', ''b'']" ?raws ?ds] h
    by blast
  with p0 p1 show ?thesis by simp
qed

text \<open>
  Claim C9 as stated fails on an archive whose one entry has a name with the three
  letters and bytes with no table on which the parser raises: \<open>parse_html\<close> does not
  return the empty dict, it raises.
\<close>

theorem rejected_markup_gives_no_empty_snapshot:
  "parse_html bs_examples [(''ABC_1.html'', ''<![foo bar]>'')] = Inl ParserRejectedMarkup
   \<and> parse_html bs_examples [(''ABC_1.html'', ''<![foo bar]>'')] \<noteq> Inr []"
  by (simp add: parser_eval bs_examples_def)

section \<open>Properties of reading and of the whole run\<close>

lemma zf_read_listed:
  "f_name \<in> fst ` set entries \<Longrightarrow> \<exists>b. zf_read entries f_name = Inr b"
proof -
  assume "f_name \<in> fst ` set entries"
  then have "f_name \<in> fst ` set (rev entries)" by simp
  then have "map_of (rev entries) f_name \<noteq> None"
    by (simp only: map_of_eq_None_iff not_not)
  then show ?thesis by (auto simp: zf_read_def)
qed

lemma read_entries_listed:
  "set f_names \<subseteq> fst ` set entries \<Longrightarrow> \<exists>d. read_entries entries html_dict f_names = Inr d"
proof (induction f_names arbitrary: html_dict)
  case Nil show ?case by simp
next
  case (Cons f f_names)
  then obtain b where "zf_read entries f = Inr b"
    using zf_read_listed [of f entries] by auto
  with Cons show ?case by simp
qed

lemma read_html_from_archive_None:
  "zip_file path = None \<Longrightarrow> read_html_from_archive zip_file path = Inl (IOError path)"
  by (simp add: read_html_from_archive_def)

lemma read_html_from_archive_Some:
  "zip_file path = Some entries \<Longrightarrow> \<exists>raw. read_html_from_archive zip_file path = Inr raw"
  using read_entries_listed [of "map fst entries" entries "[]"]
  by (simp add: read_html_from_archive_def)

lemma get_html_dict_error:
  assumes "get_html_dict zip_file bs path = Inl e"
    and "\<forall>raw. read_html_from_archive zip_file path = Inr raw \<longrightarrow>
           list_all (\<lambda>entry. \<not> entry_raises bs entry) raw"
  shows "zip_file path = None \<and> e = IOError path"
proof (cases "zip_file path")
  case None
  with assms(1) show ?thesis
    by (simp add: get_html_dict_def read_html_from_archive_None)
next
  case (Some entries)
  then obtain raw where r: "read_html_from_archive zip_file path = Inr raw"
    using read_html_from_archive_Some by blast
  with assms(2) obtain snap where "parse_html_loop bs [] raw = Inr snap"
    using parse_html_loop_returns by blast
  with r assms(1) show ?thesis by (simp add: get_html_dict_def parse_html_def)
qed

lemma pool_map_error:
  "pool_map f xs = Inl e \<Longrightarrow> \<exists>x \<in> set xs. f x = Inl e"
  by (induction xs arbitrary: e) (auto split: sum.splits)

lemma pool_map_raises:
  "x \<in> set xs \<Longrightarrow> f x = Inl e \<Longrightarrow> \<exists>e'. pool_map f xs = Inl e'"
  by (induction xs) (auto split: sum.splits)

text \<open>
  Claim C4. When there is no readable archive at a path, \<open>read_html_from_archive\<close>
  raises and \<open>get_html_dict\<close> passes the exception on; when such a path is among the
  sorted paths, \<open>main\<close> ends with the exception of one of its calls of \<open>get_html_dict\<close>
  and produces no report, and when no entry of a readable archive makes the parser raise,
  that exception is the one of a path with no readable archive. For an archive that can
  be read, \<open>get_html_dict\<close> is \<open>parse_html\<close> of its entries, which gives a dict when
  the only failures of its entries are those that are skipped.
\<close>

theorem archive_error_aborts_run:
  "(zip_file path = None \<longrightarrow>
      read_html_from_archive zip_file path = Inl (IOError path) \<and>
      get_html_dict zip_file bs path = Inl (IOError path))
   \<and> (generate_sorted_paths_to_archives arrow_get os_listdir arch_dir = Inr sorted_paths \<and>
      path \<in> set sorted_paths \<and> zip_file path = None \<longrightarrow>
        (\<exists>e. main arrow_get os_listdir zip_file bs arch_dir = Inl e \<and>
           (\<exists>p \<in> set sorted_paths. get_html_dict zip_file bs p = Inl e)))
   \<and> (generate_sorted_paths_to_archives arrow_get os_listdir arch_dir = Inr sorted_paths \<and>
      path \<in> set sorted_paths \<and> zip_file path = None \<and>
      (\<forall>p \<in> set sorted_paths. \<forall>raw. read_html_from_archive zip_file p = Inr raw \<longrightarrow>
         list_all (\<lambda>entry. \<not> entry_raises bs entry) raw) \<longrightarrow>
        (\<exists>p \<in> set sorted_paths. zip_file p = None \<and>
           main arrow_get os_listdir zip_file bs arch_dir = Inl (IOError p)))
   \<and> (zip_file path = Some entries \<longrightarrow>
        (\<exists>raw. read_html_from_archive zip_file path = Inr raw \<and>
           get_html_dict zip_file bs path = parse_html bs raw \<and>
           (list_all (\<lambda>entry. \<not> entry_raises bs entry) raw \<longrightarrow>
              (\<exists>html_dict. get_html_dict zip_file bs path = Inr html_dict))))"
proof (intro conjI impI)
  assume "zip_file path = None"
  then show "read_html_from_archive zip_file path = Inl (IOError path)"
    and "get_html_dict zip_file bs path = Inl (IOError path)"
    by (simp_all add: get_html_dict_def read_html_from_archive_None)
next
  assume h: "generate_sorted_paths_to_archives arrow_get os_listdir arch_dir = Inr sorted_paths \<and>
      path \<in> set sorted_paths \<and> zip_file path = None"
  then have "get_html_dict zip_file bs path = Inl (IOError path)"
    by (simp add: get_html_dict_def read_html_from_archive_None)
  with h obtain e where e: "pool_map (get_html_dict zip_file bs) sorted_paths = Inl e"
    using pool_map_raises [of path sorted_paths "get_html_dict zip_file bs"] by blast
  then obtain p where p: "p \<in> set sorted_paths" "get_html_dict zip_file bs p = Inl e"
    using pool_map_error by blast
  moreover from h e have "main arrow_get os_listdir zip_file bs arch_dir = Inl e"
    by (simp add: main_def)
  ultimately show "\<exists>e. main arrow_get os_listdir zip_file bs arch_dir = Inl e \<and>
           (\<exists>p \<in> set sorted_paths. get_html_dict zip_file bs p = Inl e)"
    by blast
next
  assume h: "generate_sorted_paths_to_archives arrow_get os_listdir arch_dir = Inr sorted_paths \<and>
      path \<in> set sorted_paths \<and> zip_file path = None \<and>
      (\<forall>p \<in> set sorted_paths. \<forall>raw. read_html_from_archive zip_file p = Inr raw \<longrightarrow>
         list_all (\<lambda>entry. \<not> entry_raises bs entry) raw)"
  then have "get_html_dict zip_file bs path = Inl (IOError path)"
    by (simp add: get_html_dict_def read_html_from_archive_None)
  with h obtain e where e: "pool_map (get_html_dict zip_file bs) sorted_paths = Inl e"
    using pool_map_raises [of path sorted_paths "get_html_dict zip_file bs"] by blast
  then obtain p where p: "p \<in> set sorted_paths" "get_html_dict zip_file bs p = Inl e"
    using pool_map_error by blast
  with h have "\<forall>raw. read_html_from_archive zip_file p = Inr raw \<longrightarrow>
         list_all (\<lambda>entry. \<not> entry_raises bs entry) raw"
    by blast
  with p have "zip_file p = None" "e = IOError p"
    using get_html_dict_error [of zip_file bs p e] by simp_all
  moreover from h e have "main arrow_get os_listdir zip_file bs arch_dir = Inl e"
    by (simp add: main_def)
  ultimately show "\<exists>p \<in> set sorted_paths. zip_file p = None \<and>
           main arrow_get os_listdir zip_file bs arch_dir = Inl (IOError p)"
    using p by blast
next
  assume s: "zip_file path = Some entries"
  then obtain raw where r: "read_html_from_archive zip_file path = Inr raw"
    using read_html_from_archive_Some by blast
  have "list_all (\<lambda>entry. \<not> entry_raises bs entry) raw \<longrightarrow>
              (\<exists>html_dict. get_html_dict zip_file bs path = Inr html_dict)"
    using r parse_html_loop_returns [of bs raw "[]"]
    by (simp add: get_html_dict_def parse_html_def)
  with r show "\<exists>raw. read_html_from_archive zip_file path = Inr raw \<and>
           get_html_dict zip_file bs path = parse_html bs raw \<and>
           (list_all (\<lambda>entry. \<not> entry_raises bs entry) raw \<longrightarrow>
              (\<exists>html_dict. get_html_dict zip_file bs path = Inr html_dict))"
    by (simp add: get_html_dict_def)
qed

theorem archive_error_aborts_run_witness:
  "main plain_timestamp_get (\<lambda>d. [''archive_2_1_2020_0_0.zip'', ''archive_1_1_2020_0_0.zip''])
     (\<lambda>p. if p = ''data/archive_1_1_2020_0_0.zip''
           then Some [(''abc.html'', doc_without_table)] else None)
     Inr ''data'' = Inl (IOError ''data/archive_2_1_2020_0_0.zip'')
   \<and> get_html_dict (\<lambda>p. if p = ''data/archive_1_1_2020_0_0.zip''
           then Some [(''abc.html'', doc_without_table)] else None)
        Inr ''data/archive_1_1_2020_0_0.zip'' = Inr []"
proof -
  let ?ls = "\<lambda>d::string. [''archive_2_1_2020_0_0.zip'', ''archive_1_1_2020_0_0.zip'']"
  let ?zf = "\<lambda>p. if p = ''data/archive_1_1_2020_0_0.zip''
           then Some [(''abc.html'', doc_without_table)] else None"
  let ?sorted = "[''data/archive_1_1_2020_0_0.zip'', ''data/archive_2_1_2020_0_0.zip'']"
  have g: "generate_sorted_paths_to_archives plain_timestamp_get ?ls ''data'' = Inr ?sorted"
    by (simp add: generate_sorted_paths_to_archives_def os_path_join_def sorter_eval)
  have n: "?zf ''data/archive_2_1_2020_0_0.zip'' = None" by simp
  have m: "''data/archive_2_1_2020_0_0.zip'' \<in> set ?sorted" by simp
  have r: "\<forall>p \<in> set ?sorted. \<forall>raw. read_html_from_archive ?zf p = Inr raw \<longrightarrow>
         list_all (\<lambda>entry. \<not> entry_raises Inr entry) raw"
    by (simp add: read_html_from_archive_def zf_read_def parser_eval)
  note t = archive_error_aborts_run [of ?zf "''data/archive_2_1_2020_0_0.zip''" Inr
      plain_timestamp_get ?ls "''data''" ?sorted "[]"]
  from t g n m r obtain p where p: "p \<in> set ?sorted" "?zf p = None"
    "main plain_timestamp_get ?ls ?zf Inr ''data'' = Inl (IOError p)" by blast
  then have "p = ''data/archive_2_1_2020_0_0.zip''" by (auto split: if_splits)
  with p have 1: "main plain_timestamp_get ?ls ?zf Inr ''data''
      = Inl (IOError ''data/archive_2_1_2020_0_0.zip'')"
    by simp
  have 2: "get_html_dict ?zf Inr ''data/archive_1_1_2020_0_0.zip'' = Inr []"
    by (simp add: get_html_dict_def read_html_from_archive_def zf_read_def parser_eval)
  from 1 2 show ?thesis by simp
qed

end
